theory Spec2Isabelle
  imports Complex_Main "HOL-Library.Sublist"
begin

section \<open>Values, contexts and effects\<close>

text \<open>
  The renderer of \<^verbatim>\<open>src/svg.ts\<close> walks plain JavaScript values. A value is one of the
  primitives, an array, a plain object or a function. An object is the list of its own
  enumerable properties in the order \<^verbatim>\<open>Object.entries\<close> reports them. A caller-supplied
  function is a number that names it: what it returns (or throws) for a context and what
  \<^verbatim>\<open>String\<close> prints for it come from the environment. The numbers of a description are
  the finite ones, given by their real value; strings are lists of 8-bit characters.
\<close>

datatype jsval =
    JUndefined
  | JNull
  | JBool bool
  | JNum real
  | JStr string
  | JArr "jsval list"
  | JObj "(string \<times> jsval) list"
  | JFun nat

text \<open>
  The interface \<^verbatim>\<open>Context\<close>: the fields \<^verbatim>\<open>d\<close> and \<^verbatim>\<open>value\<close> always hold the same item
  and \<^verbatim>\<open>i\<close> and \<^verbatim>\<open>index\<close> the same index, so each pair is one field here.
\<close>

datatype ctx = Ctx (ctx_d: jsval) (ctx_i: nat) (ctx_data: "jsval list") (ctx_parent: "ctx option")

datatype exn = Thrown jsval

text \<open>
  The environment also holds what \<^verbatim>\<open>String\<close> prints where that is not plain: for a number
  that is no integer or lies beyond the safe integers (\<open>num_string\<close>), and for an object
  that has a \<^verbatim>\<open>toString\<close> or \<^verbatim>\<open>valueOf\<close> property of its own (\<open>obj_string\<close>). Such a
  conversion is taken to return a string; one that throws is outside this model.
\<close>

record env =
  fn_call :: "nat \<Rightarrow> ctx \<Rightarrow> exn + jsval"
  fn_source :: "nat \<Rightarrow> string"
  num_string :: "real \<Rightarrow> string"
  obj_string :: "(string \<times> jsval) list \<Rightarrow> string"

text \<open>
  What a render call does besides returning: it calls the caller's functions and it writes
  diagnostics with \<^verbatim>\<open>console.warn\<close>. Both are recorded, in order, next to the result,
  which is the returned value or the exception that escaped.
\<close>

datatype event = Called nat ctx | Warned jsval

type_synonym 'a res = "(exn + 'a) \<times> event list"

record renderOptions =
  pretty :: bool
  indent :: nat

section \<open>Strings\<close>

definition dq :: char where
  "dq = CHR 0x22"

definition nlc :: char where
  "nlc = CHR 0x0A"

definition digitChar :: "nat \<Rightarrow> char" where
  "digitChar n = ''0123456789'' ! n"

fun showNat :: "nat \<Rightarrow> string" where
  "showNat n = (if n < 10 then [digitChar n] else showNat (n div 10) @ [digitChar (n mod 10)])"

declare showNat.simps [simp del]

definition showInt :: "int \<Rightarrow> string" where
  "showInt n = (if n < 0 then CHR ''-'' # showNat (nat (- n)) else showNat (nat n))"

fun joinWith :: "string \<Rightarrow> string list \<Rightarrow> string" where
  "joinWith sep [] = []"
| "joinWith sep [x] = x"
| "joinWith sep (x # y # ys) = x @ sep @ joinWith sep (y # ys)"

text \<open>
  \<^verbatim>\<open>String(v)\<close>. A safe integer prints its decimal digits; an array prints its elements
  joined by commas, with null and undefined empty; an object without a \<^verbatim>\<open>toString\<close> or
  \<^verbatim>\<open>valueOf\<close> of its own prints \<^verbatim>\<open>[object Object]\<close>.
\<close>

fun jsString :: "env \<Rightarrow> jsval \<Rightarrow> string" where
  "jsString E JUndefined = ''undefined''"
| "jsString E JNull = ''null''"
| "jsString E (JBool b) = (if b then ''true'' else ''false'')"
| "jsString E (JNum x) =
     (if of_int \<lfloor>x\<rfloor> = x \<and> \<bar>x\<bar> \<le> 9007199254740991 then showInt \<lfloor>x\<rfloor> else num_string E x)"
| "jsString E (JStr s) = s"
| "jsString E (JArr xs) =
     joinWith '','' (map (\<lambda>x. if x = JUndefined \<or> x = JNull then [] else jsString E x) xs)"
| "jsString E (JObj es) =
     (if map_of es ''toString'' = None \<and> map_of es ''valueOf'' = None then ''[object Object]''
      else obj_string E es)"
| "jsString E (JFun f) = fn_source E f"

text \<open>\<^verbatim>\<open>s.replace(/c/g, rep)\<close> for a one-character pattern.\<close>

definition replaceAll :: "char \<Rightarrow> string \<Rightarrow> string \<Rightarrow> string" where
  "replaceAll c rep s = concat (map (\<lambda>x. if x = c then rep else [x]) s)"

definition escapeAttr :: "env \<Rightarrow> jsval \<Rightarrow> string" where
  "escapeAttr E v =
     replaceAll CHR ''>'' ''&gt;''
       (replaceAll CHR ''<'' ''&lt;''
         (replaceAll dq ''&quot;''
           (replaceAll CHR ''&'' ''&amp;'' (jsString E v))))"

definition escapeText :: "env \<Rightarrow> jsval \<Rightarrow> string" where
  "escapeText E v =
     replaceAll CHR ''>'' ''&gt;''
       (replaceAll CHR ''<'' ''&lt;''
         (replaceAll CHR ''&'' ''&amp;'' (jsString E v)))"

text \<open>The simultaneous substitution that the four replacements of \<^verbatim>\<open>escapeAttr\<close> are compared with.\<close>

definition attrEntity :: "char \<Rightarrow> string" where
  "attrEntity x =
     (if x = CHR ''&'' then ''&amp;''
      else if x = dq then ''&quot;''
      else if x = CHR ''<'' then ''&lt;''
      else if x = CHR ''>'' then ''&gt;''
      else [x])"

section \<open>Keys\<close>

definition SVG_ELEMENTS :: "string list" where
  "SVG_ELEMENTS =
    [''svg'', ''g'', ''defs'', ''symbol'', ''use'', ''title'', ''desc'',
     ''rect'', ''circle'', ''ellipse'', ''line'', ''polyline'', ''polygon'', ''path'',
     ''text'', ''tspan'', ''textPath'',
     ''image'', ''foreignObject'',
     ''linearGradient'', ''radialGradient'', ''stop'', ''pattern'',
     ''clipPath'', ''mask'', ''filter'',
     ''feBlend'', ''feColorMatrix'', ''feComponentTransfer'', ''feComposite'',
     ''feConvolveMatrix'', ''feDiffuseLighting'', ''feDisplacementMap'',
     ''feDropShadow'', ''feFlood'', ''feGaussianBlur'', ''feImage'', ''feMerge'',
     ''feMergeNode'', ''feMorphology'', ''feOffset'', ''feSpecularLighting'',
     ''feTile'', ''feTurbulence'', ''marker'', ''animate'', ''animateMotion'',
     ''animateTransform'', ''set'', ''a'']"

definition SPECIAL_KEYS :: "string list" where
  "SPECIAL_KEYS = [''$each'', ''$if'', ''$text'', ''$key'', ''$raw'']"

definition isSpecial :: "string \<Rightarrow> bool" where
  "isSpecial key = (key \<in> set SPECIAL_KEYS)"

definition startsWith :: "string \<Rightarrow> string \<Rightarrow> bool" where
  "startsWith s p = (take (length p) s = p)"

definition isElement :: "string \<Rightarrow> bool" where
  "isElement key = (key \<in> set SVG_ELEMENTS)"

definition isAttribute :: "string \<Rightarrow> bool" where
  "isAttribute key = (\<not> isElement key \<and> \<not> isSpecial key \<and> \<not> startsWith key ''$'')"

section \<open>Evaluation of dynamic values\<close>

definition evaluate :: "env \<Rightarrow> jsval \<Rightarrow> ctx \<Rightarrow> jsval res" where
  "evaluate E v c = (case v of JFun f \<Rightarrow> (fn_call E f c, [Called f c]) | _ \<Rightarrow> (Inr v, []))"

text \<open>JavaScript truthiness, as \<^verbatim>\<open>!x\<close>, \<^verbatim>\<open>x || y\<close> and \<^verbatim>\<open>x ? a : b\<close> read it.\<close>

fun truthy :: "jsval \<Rightarrow> bool" where
  "truthy JUndefined = False"
| "truthy JNull = False"
| "truthy (JBool b) = b"
| "truthy (JNum n) = (n \<noteq> 0)"
| "truthy (JStr s) = (s \<noteq> [])"
| "truthy (JArr xs) = True"
| "truthy (JObj es) = True"
| "truthy (JFun f) = True"

text \<open>\<^verbatim>\<open>Array.isArray\<close>.\<close>

fun isArray :: "jsval \<Rightarrow> bool" where
  "isArray (JArr xs) = True"
| "isArray v = False"

text \<open>\<^verbatim>\<open>obj.key\<close> on a plain object: the own property, or undefined.\<close>

definition getProp :: "(string \<times> jsval) list \<Rightarrow> string \<Rightarrow> jsval" where
  "getProp es k = (case map_of es k of None \<Rightarrow> JUndefined | Some v \<Rightarrow> v)"

section \<open>Sequencing\<close>

definition bindRes :: "'a res \<Rightarrow> ('a \<Rightarrow> 'b res) \<Rightarrow> 'b res" where
  "bindRes m f =
     (case m of
        (Inl e, t) \<Rightarrow> (Inl e, t)
      | (Inr x, t) \<Rightarrow> (case f x of (r, t') \<Rightarrow> (r, t @ t')))"

lemma bindRes_cong [fundef_cong]:
  "m = m' \<Longrightarrow> (\<And>x t. m' = (Inr x, t) \<Longrightarrow> f x = f' x) \<Longrightarrow> bindRes m f = bindRes m' f'"
  by (auto simp: bindRes_def split: prod.splits sum.splits)

text \<open>\<^verbatim>\<open>xs.map(f).join('')\<close>: left to right, stopping at the first exception.\<close>

fun joinRes :: "string res list \<Rightarrow> string res" where
  "joinRes [] = (Inr [], [])"
| "joinRes (m # ms) = bindRes m (\<lambda>s. bindRes (joinRes ms) (\<lambda>r. (Inr (s @ r), [])))"

section \<open>Rendering one element\<close>

record collected =
  attributes :: "string list"
  children :: "(string \<times> jsval) list"
  textContent :: string
  rawContent :: jsval

definition emptyCollected :: collected where
  "emptyCollected = \<lparr>attributes = [], children = [], textContent = [], rawContent = JStr []\<rparr>"

text \<open>The body of the loop over \<^verbatim>\<open>Object.entries(definition)\<close> in \<^verbatim>\<open>renderElement\<close>.\<close>

definition collectStep :: "env \<Rightarrow> ctx \<Rightarrow> string \<times> jsval \<Rightarrow> collected \<Rightarrow> collected res" where
  "collectStep E c kv acc =
     (case kv of (key, v) \<Rightarrow>
        if isSpecial key then
          (if key = ''$text'' then
             bindRes (evaluate E v c) (\<lambda>x. (Inr (acc\<lparr>textContent := escapeText E x\<rparr>), []))
           else if key = ''$raw'' then
             bindRes (evaluate E v c)
               (\<lambda>x. (Inr (acc\<lparr>rawContent := (if truthy x then x else JStr [])\<rparr>), []))
           else (Inr acc, []))
        else if isElement key then
          (Inr (acc\<lparr>children := children acc @ [(key, v)]\<rparr>), [])
        else if isAttribute key then
          bindRes (evaluate E v c)
            (\<lambda>attrValue.
               if attrValue \<noteq> JNull \<and> attrValue \<noteq> JUndefined \<and> attrValue \<noteq> JBool False
               then (Inr (acc\<lparr>attributes :=
                            attributes acc @ [key @ ''='' @ [dq] @ escapeAttr E attrValue @ [dq]]\<rparr>), [])
               else (Inr acc, []))
        else (Inr acc, []))"

fun collectLoop :: "env \<Rightarrow> ctx \<Rightarrow> (string \<times> jsval) list \<Rightarrow> collected \<Rightarrow> collected res" where
  "collectLoop E c [] acc = (Inr acc, [])"
| "collectLoop E c (kv # rest) acc = bindRes (collectStep E c kv acc) (collectLoop E c rest)"

definition padOf :: "renderOptions \<Rightarrow> string" where
  "padOf opts = (if pretty opts then concat (replicate (indent opts) ''  '') else [])"

definition nlOf :: "renderOptions \<Rightarrow> string" where
  "nlOf opts = (if pretty opts then [nlc] else [])"

text \<open>The return statements of \<^verbatim>\<open>renderElement\<close>, once the children are rendered.\<close>

definition emitElement :: "env \<Rightarrow> string \<Rightarrow> renderOptions \<Rightarrow> collected \<Rightarrow> string \<Rightarrow> string" where
  "emitElement E tagName opts col childrenStr =
     (let pad = padOf opts;
          nl = nlOf opts;
          attrStr = (if attributes col \<noteq> [] then '' '' @ joinWith '' '' (attributes col) else []);
          txt = textContent col;
          raw = rawContent col
      in if tagName = ''text'' \<and> txt \<noteq> [] then
           pad @ ''<'' @ tagName @ attrStr @ ''>'' @ txt @ ''</'' @ tagName @ ''>'' @ nl
         else if childrenStr \<noteq> [] \<or> txt \<noteq> [] \<or> truthy raw then
           (let textPad = (if pretty opts then concat (replicate (indent opts + 1) ''  '') else []);
                rawPad = (if pretty opts \<and> truthy raw then textPad else []);
                rawNl = (if pretty opts \<and> truthy raw then nl else [])
            in pad @ ''<'' @ tagName @ attrStr @ ''>'' @ nl @ childrenStr
               @ (if txt \<noteq> [] then textPad @ txt @ nl else [])
               @ (if truthy raw then rawPad @ jsString E raw @ rawNl else [])
               @ pad @ ''</'' @ tagName @ ''>'' @ nl)
         else pad @ ''<'' @ tagName @ attrStr @ ''/>'' @ nl)"

text \<open>\<^verbatim>\<open>const { $each, ...restDefinition } = def\<close>.\<close>

definition removeKey :: "string \<Rightarrow> (string \<times> jsval) list \<Rightarrow> (string \<times> jsval) list" where
  "removeKey k es = filter (\<lambda>kv. fst kv \<noteq> k) es"

section \<open>Rendering a node\<close>

lemma collectStep_children:
  "collectStep E c kv acc = (Inr acc', t) \<Longrightarrow> set (children acc') \<subseteq> set (children acc) \<union> {kv}"
  by (cases kv) (auto simp: collectStep_def bindRes_def split: if_splits prod.splits sum.splits)

lemma collectLoop_children:
  "collectLoop E c es acc = (Inr col, t) \<Longrightarrow> set (children col) \<subseteq> set (children acc) \<union> set es"
proof (induction es arbitrary: acc t)
  case Nil
  then show ?case by simp
next
  case (Cons kv es)
  then show ?case
    by (fastforce simp: bindRes_def split: prod.splits sum.splits dest: collectStep_children)
qed

lemma size_list_removeKey:
  "size_list f (removeKey k es) \<le> size_list f es"
  by (induction es) (auto simp: removeKey_def)

lemma size_entry_le:
  "kv \<in> set es \<Longrightarrow> size (snd kv) \<le> size_list (size_prod (\<lambda>x. 0) size) es"
proof (induction es)
  case Nil
  then show ?case by simp
next
  case (Cons e es)
  show ?case
  proof (cases "kv = e")
    case True
    then show ?thesis by (cases e) simp
  next
    case False
    with Cons show ?thesis by simp
  qed
qed

lemma size_elem_le: "x \<in> set xs \<Longrightarrow> size (x::jsval) \<le> size_list size xs"
  by (induction xs) auto

text \<open>
  \<^verbatim>\<open>renderNode\<close> and \<^verbatim>\<open>renderElement\<close>. The iteration context of item \<open>index\<close> is
  \<open>Ctx (items ! index) index items (Some c)\<close>: the item, its index, the whole array and the
  context in which the \<^verbatim>\<open>$each\<close> was met.
\<close>

function (sequential)
  renderNode :: "env \<Rightarrow> string \<Rightarrow> jsval \<Rightarrow> ctx \<Rightarrow> renderOptions \<Rightarrow> string res" and
  renderElement :: "env \<Rightarrow> string \<Rightarrow> (string \<times> jsval) list \<Rightarrow> ctx \<Rightarrow> renderOptions \<Rightarrow> string res"
where
  "renderNode E tagName (JArr defs) c opts =
     joinRes (map (\<lambda>df. renderNode E tagName df c opts) defs)"
| "renderNode E tagName (JObj es) c opts =
     (if getProp es ''$each'' \<noteq> JUndefined then
        bindRes (evaluate E (getProp es ''$each'') c)
          (\<lambda>dataSource.
             case dataSource of
               JArr items \<Rightarrow>
                 joinRes (map (\<lambda>index. renderElement E tagName (removeKey ''$each'' es)
                                          (Ctx (items ! index) index items (Some c)) opts)
                           [0..<length items])
             | _ \<Rightarrow> (Inr [], [Warned dataSource]))
      else renderElement E tagName es c opts)"
| "renderNode E tagName v c opts =
     bindRes (evaluate E v c)
       (\<lambda>x. (Inr (padOf opts @ ''<'' @ tagName @ ''>'' @ escapeText E x @ ''</'' @ tagName @ ''>''
                    @ nlOf opts), []))"
| "renderElement E tagName es c opts =
     bindRes (if getProp es ''$if'' \<noteq> JUndefined then evaluate E (getProp es ''$if'') c
              else (Inr (JBool True), []))
       (\<lambda>condition.
          if \<not> truthy condition then (Inr [], [])
          else
            bindRes (collectLoop E c es emptyCollected)
              (\<lambda>col.
                 bindRes (joinRes (map (\<lambda>child. renderNode E (fst child) (snd child) c
                                                  (opts\<lparr>indent := indent opts + 1\<rparr>))
                                    (children col)))
                   (\<lambda>childrenStr. (Inr (emitElement E tagName opts col childrenStr), []))))"
  by pat_completeness auto

termination
proof (relation "measure (\<lambda>x. case x of Inl (E, t, df, c, opts) \<Rightarrow> 2 * size df
                                        | Inr (E, t, es, c, opts) \<Rightarrow> 2 * size (JObj es) - 1)",
       goal_cases)
  case 1
  show ?case by simp
next
  case (2 E tagName defs c opts df)
  then show ?case using size_elem_le [of df defs] by simp
next
  case (3 E tagName es c opts dataSource t items index)
  show ?case
    using size_list_removeKey [of "size_prod (\<lambda>x. 0) size" "''$each''" es] by simp
next
  case (4 E tagName es c opts)
  show ?case by simp
next
  case (5 E tagName es c opts condition t col ta child)
  then show ?case
    using collectLoop_children [of E c es emptyCollected col ta] size_entry_le [of child es]
    by (auto simp: emptyCollected_def)
qed

declare renderNode.simps [simp del] renderElement.simps [simp del]

section \<open>The entry point\<close>

definition createEmptyContext :: ctx where
  "createEmptyContext = Ctx JNull 0 [] None"

definition isDigit :: "char \<Rightarrow> bool" where
  "isDigit ch = (ch \<in> set ''0123456789'')"

definition readNat :: "string \<Rightarrow> nat" where
  "readNat s = foldl (\<lambda>n ch. 10 * n + (of_char ch - 48)) 0 s"

text \<open>
  An integer-like key (the decimal form of an integer below \<open>2\<^sup>3\<^sup>2 - 1\<close>) is an array index:
  an object lists such keys first, in ascending order, and the others after them in the
  order of their creation.
\<close>

definition isArrayIndex :: "string \<Rightarrow> bool" where
  "isArrayIndex k =
     (k \<noteq> [] \<and> list_all isDigit k \<and> (k = ''0'' \<or> hd k \<noteq> CHR ''0'') \<and> readNat k < 4294967295)"

definition setProp :: "(string \<times> jsval) list \<Rightarrow> string \<Rightarrow> jsval \<Rightarrow> (string \<times> jsval) list" where
  "setProp es k v =
     (if k \<in> set (map fst es) then map (\<lambda>kv. if fst kv = k then (k, v) else kv) es
      else if isArrayIndex k then
        takeWhile (\<lambda>kv. isArrayIndex (fst kv) \<and> readNat (fst kv) < readNat k) es
        @ [(k, v)]
        @ dropWhile (\<lambda>kv. isArrayIndex (fst kv) \<and> readNat (fst kv) < readNat k) es
      else es @ [(k, v)])"

text \<open>\<^verbatim>\<open>{ ...target, ...source }\<close>: the properties of the source are set one by one.\<close>

definition spread :: "(string \<times> jsval) list \<Rightarrow> (string \<times> jsval) list \<Rightarrow> (string \<times> jsval) list" where
  "spread target source = foldl (\<lambda>obj kv. setProp obj (fst kv) (snd kv)) target source"

definition isTrimSpace :: "char \<Rightarrow> bool" where
  "isTrimSpace ch = (of_char ch \<in> {9, 10, 11, 12, 13, 32, 160 :: nat})"

definition trim :: "string \<Rightarrow> string" where
  "trim s = rev (dropWhile isTrimSpace (rev (dropWhile isTrimSpace s)))"

definition svgNamespace :: string where
  "svgNamespace = ''http://www.w3.org/2000/svg''"

definition svg :: "env \<Rightarrow> (string \<times> jsval) list \<Rightarrow> bool \<Rightarrow> string res" where
  "svg E definition prettyOpt =
     (let c = createEmptyContext;
          rootDef = spread [(''xmlns'', JStr svgNamespace)] definition
      in bindRes (renderElement E ''svg'' rootDef c \<lparr>pretty = prettyOpt, indent = 0\<rparr>)
           (\<lambda>s. (Inr (trim s), [])))"

text \<open>An environment for descriptions without functions.\<close>

definition noFunctions :: env where
  "noFunctions = \<lparr>fn_call = (\<lambda>f c. Inr JUndefined), fn_source = (\<lambda>f. []),
                    num_string = (\<lambda>x. []), obj_string = (\<lambda>es. [])\<rparr>"

section \<open>Double-precision numbers\<close>

text \<open>
  The scale utilities compute on IEEE-754 doubles. A double is NaN, one of the two
  infinities or a finite number, given by its real value. The two zeros are one value here:
  the utilities tell them apart only where they divide by zero, and every divisor that can be
  zero there is a difference \<open>x - x\<close>, a power of ten or a product of non-negative factors,
  which is the positive zero.
\<close>

datatype dbl = NaN | PInf | NInf | Fin real

text \<open>The integer nearest to \<open>y\<close>, the even one of the two when \<open>y\<close> lies halfway.\<close>

definition roundHalfEven :: "real \<Rightarrow> int" where
  "roundHalfEven y =
     (let f = \<lfloor>y\<rfloor>; d = y - of_int f
      in if d < 1 / 2 then f else if 1 / 2 < d then f + 1 else if even f then f else f + 1)"

text \<open>
  Doubles have 53 significant bits and exponents from \<open>-1022\<close> on, with gradual underflow:
  around \<open>y\<close> they are the multiples of \<open>2\<close> to the power \<open>ulpExponent y\<close>.
\<close>

definition ulpExponent :: "real \<Rightarrow> int" where
  "ulpExponent y = max \<lfloor>log 2 \<bar>y\<bar>\<rfloor> (- 1022) - 52"

definition roundNearest :: "real \<Rightarrow> real" where
  "roundNearest y =
     (if y = 0 then 0
      else of_int (roundHalfEven (y / 2 powr of_int (ulpExponent y))) * 2 powr of_int (ulpExponent y))"

text \<open>
  The double that an arithmetic operation returns when its exact result is \<open>y\<close>: the nearest
  one, and an infinity from \<open>2\<^sup>1\<^sup>0\<^sup>2\<^sup>4\<close> on.
\<close>

definition rnd :: "real \<Rightarrow> dbl" where
  "rnd y =
     (let r = roundNearest y
      in if 2 ^ 1024 \<le> r then PInf else if r \<le> - (2 ^ 1024) then NInf else Fin r)"

text \<open>The finite values that are doubles.\<close>

fun valid :: "dbl \<Rightarrow> bool" where
  "valid (Fin x) = (roundNearest x = x \<and> \<bar>x\<bar> < 2 ^ 1024)"
| "valid v = True"

fun dneg :: "dbl \<Rightarrow> dbl" where
  "dneg NaN = NaN"
| "dneg PInf = NInf"
| "dneg NInf = PInf"
| "dneg (Fin x) = Fin (- x)"

text \<open>\<^verbatim>\<open>a + b\<close>, \<^verbatim>\<open>a - b\<close>, \<^verbatim>\<open>a * b\<close> and \<^verbatim>\<open>a / b\<close>.\<close>

fun dadd :: "dbl \<Rightarrow> dbl \<Rightarrow> dbl" where
  "dadd (Fin x) (Fin y) = rnd (x + y)"
| "dadd NaN b = NaN"
| "dadd a NaN = NaN"
| "dadd PInf NInf = NaN"
| "dadd NInf PInf = NaN"
| "dadd PInf b = PInf"
| "dadd a PInf = PInf"
| "dadd NInf b = NInf"
| "dadd a NInf = NInf"

definition dsub :: "dbl \<Rightarrow> dbl \<Rightarrow> dbl" where
  "dsub a b = dadd a (dneg b)"

fun dsigned :: "bool \<Rightarrow> dbl" where
  "dsigned True = PInf"
| "dsigned False = NInf"

fun dmul :: "dbl \<Rightarrow> dbl \<Rightarrow> dbl" where
  "dmul (Fin x) (Fin y) = rnd (x * y)"
| "dmul NaN b = NaN"
| "dmul a NaN = NaN"
| "dmul PInf PInf = PInf"
| "dmul PInf NInf = NInf"
| "dmul NInf PInf = NInf"
| "dmul NInf NInf = PInf"
| "dmul PInf (Fin y) = (if y = 0 then NaN else dsigned (0 < y))"
| "dmul NInf (Fin y) = (if y = 0 then NaN else dsigned (y < 0))"
| "dmul (Fin x) PInf = (if x = 0 then NaN else dsigned (0 < x))"
| "dmul (Fin x) NInf = (if x = 0 then NaN else dsigned (x < 0))"

fun ddiv :: "dbl \<Rightarrow> dbl \<Rightarrow> dbl" where
  "ddiv (Fin x) (Fin y) =
     (if y = 0 then (if x = 0 then NaN else dsigned (0 < x)) else rnd (x / y))"
| "ddiv NaN b = NaN"
| "ddiv a NaN = NaN"
| "ddiv (Fin x) b = Fin 0"
| "ddiv PInf (Fin y) = dsigned (0 \<le> y)"
| "ddiv NInf (Fin y) = dsigned (y < 0)"
| "ddiv a b = NaN"

text \<open>\<^verbatim>\<open>a <= b\<close> and \<^verbatim>\<open>a < b\<close>: false as soon as one side is NaN.\<close>

fun dle :: "dbl \<Rightarrow> dbl \<Rightarrow> bool" where
  "dle (Fin x) (Fin y) = (x \<le> y)"
| "dle NaN b = False"
| "dle a NaN = False"
| "dle NInf b = True"
| "dle a PInf = True"
| "dle a b = False"

fun dlt :: "dbl \<Rightarrow> dbl \<Rightarrow> bool" where
  "dlt (Fin x) (Fin y) = (x < y)"
| "dlt NaN b = False"
| "dlt a NaN = False"
| "dlt PInf b = False"
| "dlt a NInf = False"
| "dlt a b = True"

text \<open>
  \<^verbatim>\<open>Math.floor\<close>, \<^verbatim>\<open>Math.ceil\<close> and \<^verbatim>\<open>Math.round\<close>, which rounds halves up; on a double
  each returns a double.
\<close>

fun dfloor :: "dbl \<Rightarrow> dbl" where
  "dfloor (Fin x) = Fin (of_int \<lfloor>x\<rfloor>)"
| "dfloor v = v"

fun dceil :: "dbl \<Rightarrow> dbl" where
  "dceil (Fin x) = Fin (of_int \<lceil>x\<rceil>)"
| "dceil v = v"

fun mathRound :: "dbl \<Rightarrow> dbl" where
  "mathRound (Fin x) = Fin (of_int \<lfloor>x + 1 / 2\<rfloor>)"
| "mathRound v = v"

text \<open>
  \<^verbatim>\<open>Math.log10(x)\<close> and \<^verbatim>\<open>Math.pow(10, e)\<close>. The language fixes their values at NaN, at the
  infinities, at zero and at one; elsewhere an engine returns an approximation of its own
  choice, which is the parameter \<open>M\<close>. \<open>exactMath\<close> is the engine that rounds the exact
  logarithm and the exact power.
\<close>

record mathlib =
  log10_of :: "real \<Rightarrow> dbl"
  pow10_of :: "real \<Rightarrow> dbl"

fun mathLog10 :: "mathlib \<Rightarrow> dbl \<Rightarrow> dbl" where
  "mathLog10 M NaN = NaN"
| "mathLog10 M PInf = PInf"
| "mathLog10 M NInf = NaN"
| "mathLog10 M (Fin x) =
     (if x < 0 then NaN else if x = 0 then NInf else if x = 1 then Fin 0 else log10_of M x)"

fun mathPow10 :: "mathlib \<Rightarrow> dbl \<Rightarrow> dbl" where
  "mathPow10 M NaN = NaN"
| "mathPow10 M PInf = PInf"
| "mathPow10 M NInf = Fin 0"
| "mathPow10 M (Fin e) = (if e = 0 then Fin 1 else pow10_of M e)"

definition exactMath :: mathlib where
  "exactMath = \<lparr>log10_of = (\<lambda>x. rnd (log 10 x)), pow10_of = (\<lambda>e. rnd (10 powr e))\<rparr>"

section \<open>Scales and ticks\<close>

text \<open>
  The scale utilities of the plot module. \<^verbatim>\<open>niceNumber(range, round)\<close>; a comparison with a
  NaN fraction is false, so the last branch is taken.
\<close>

definition niceNumber :: "mathlib \<Rightarrow> dbl \<Rightarrow> bool \<Rightarrow> dbl" where
  "niceNumber M rng rounding =
     (let exponent = dfloor (mathLog10 M rng);
          fraction = ddiv rng (mathPow10 M exponent);
          niceFraction =
            (if rounding then
               (if dlt fraction (Fin (3 / 2)) then Fin 1
                else if dlt fraction (Fin 3) then Fin 2
                else if dlt fraction (Fin 7) then Fin 5
                else Fin 10)
             else
               (if dle fraction (Fin 1) then Fin 1
                else if dle fraction (Fin 2) then Fin 2
                else if dle fraction (Fin 5) then Fin 5
                else Fin 10))
      in dmul niceFraction (mathPow10 M exponent))"

text \<open>The object \<^verbatim>\<open>{ min, max, step }\<close> that \<^verbatim>\<open>niceScale\<close> returns.\<close>

record scale =
  scaleMin :: dbl
  scaleMax :: dbl
  scaleStep :: dbl

text \<open>\<^verbatim>\<open>niceScale(min, max, maxTicks)\<close>; a call with two arguments has \<open>maxTicks = Fin 5\<close>.\<close>

definition niceScale :: "mathlib \<Rightarrow> dbl \<Rightarrow> dbl \<Rightarrow> dbl \<Rightarrow> scale" where
  "niceScale M mn mx maxTicks =
     (let rng = niceNumber M (dsub mx mn) False;
          step = niceNumber M (ddiv rng (dsub maxTicks (Fin 1))) True;
          niceMin = dmul (dfloor (ddiv mn step)) step;
          niceMax = dmul (dceil (ddiv mx step)) step
      in \<lparr>scaleMin = niceMin, scaleMax = niceMax, scaleStep = step\<rparr>)"

text \<open>\<^verbatim>\<open>Math.round(v * 1e10) / 1e10\<close>.\<close>

definition roundTick :: "dbl \<Rightarrow> dbl" where
  "roundTick v = ddiv (mathRound (dmul v (Fin 10000000000))) (Fin 10000000000)"

text \<open>
  The loop of \<^verbatim>\<open>generateTicks\<close>, from the test of its condition on; a loop that never ends
  has the value \<open>None\<close>.
\<close>

partial_function (option) ticksLoop :: "dbl \<Rightarrow> dbl \<Rightarrow> dbl \<Rightarrow> dbl list \<Rightarrow> dbl list option" where
  "ticksLoop v mx step ticks =
     (if dle v (dadd mx (dmul step (Fin (1 / 2))))
      then ticksLoop (dadd v step) mx step (ticks @ [roundTick v])
      else Some ticks)"

definition generateTicks :: "dbl \<Rightarrow> dbl \<Rightarrow> dbl \<Rightarrow> dbl list option" where
  "generateTicks mn mx step = ticksLoop mn mx step []"

text \<open>\<^verbatim>\<open>x || 1\<close> on a number: zero and NaN are the falsy ones.\<close>

definition orOne :: "dbl \<Rightarrow> dbl" where
  "orOne x = (if x = NaN \<or> x = Fin 0 then Fin 1 else x)"

text \<open>\<^verbatim>\<open>createLinearScale(domain, range)\<close>, with the two pairs taken apart as the code does.\<close>

fun createLinearScale :: "dbl \<times> dbl \<Rightarrow> dbl \<times> dbl \<Rightarrow> dbl \<Rightarrow> dbl" where
  "createLinearScale (d0, d1) (r0, r1) =
     (let scale = ddiv (dsub r1 r0) (orOne (dsub d1 d0))
      in (\<lambda>v. dadd r0 (dmul (dsub v d0) scale)))"

section \<open>The attribute format of the specification\<close>

text \<open>
  The specification's \<^verbatim>\<open>key="escaped-value"\<close>: the value as \<^verbatim>\<open>String\<close> prints it, with each
  of its characters replaced by its entity, between double quotes after the key and an
  equals sign. This is written from the specification, to be compared with what the loop of
  \<^verbatim>\<open>renderElement\<close> collects.
\<close>

definition attributeText :: "env \<Rightarrow> string \<Rightarrow> jsval \<Rightarrow> string" where
  "attributeText E key x = key @ ''='' @ [dq] @ concat (map attrEntity (jsString E x)) @ [dq]"

text \<open>The three values for which the specification omits the attribute.\<close>

definition omitted :: "jsval \<Rightarrow> bool" where
  "omitted x = (x = JNull \<or> x = JUndefined \<or> x = JBool False)"

text \<open>
  The attributes the specification expects of a node, in the order of its entries: one text
  for each attribute key whose value resolves to a value that is not omitted.
\<close>

definition presentAttributes :: "env \<Rightarrow> ctx \<Rightarrow> (string \<times> jsval) list \<Rightarrow> string list" where
  "presentAttributes E c es =
     concat (map (\<lambda>kv. if isAttribute (fst kv) then
                          (case fst (evaluate E (snd kv) c) of
                             Inr x \<Rightarrow> if omitted x then [] else [attributeText E (fst kv) x]
                           | Inl e \<Rightarrow> [])
                        else []) es)"

text \<open>A node of seven attribute keys, three of them with an omitted value.\<close>

definition attributeNode :: "(string \<times> jsval) list" where
  "attributeNode =
     [(''data-info'', JStr (''a < b & c > d '' @ [dq] @ ''q'' @ [dq])),
      (''width'', JNum 50),
      (''fill'', JNull),
      (''stroke'', JUndefined),
      (''hidden'', JBool False),
      (''x'', JNum 0),
      (''label'', JStr [])]"

section \<open>Iteration contexts\<close>

text \<open>
  How deep \<^verbatim>\<open>$each\<close> directives nest in a description: below an array the deepest of its
  elements, below an object the deepest of its element-named entries, plus one when the
  object itself has a \<^verbatim>\<open>$each\<close>.
\<close>

function eachDepth :: "jsval \<Rightarrow> nat" where
  "eachDepth (JArr defs) = foldr (\<lambda>df n. max (eachDepth df) n) defs 0"
| "eachDepth (JObj es) =
     (if getProp es ''$each'' \<noteq> JUndefined then 1 else 0)
     + foldr (\<lambda>kv n. max (if isElement (fst kv) then eachDepth (snd kv) else 0) n) es 0"
| "eachDepth JUndefined = 0"
| "eachDepth JNull = 0"
| "eachDepth (JBool b) = 0"
| "eachDepth (JNum n) = 0"
| "eachDepth (JStr s) = 0"
| "eachDepth (JFun f) = 0"
  by pat_completeness auto

termination
  by (relation "measure size") (auto simp: less_Suc_eq_le dest: size_elem_le size_entry_le)

definition childDepth :: "(string \<times> jsval) list \<Rightarrow> nat" where
  "childDepth es = foldr (\<lambda>kv n. max (if isElement (fst kv) then eachDepth (snd kv) else 0) n) es 0"

text \<open>
  \<open>chained n outer c\<close>: the context \<open>c\<close> is \<open>outer\<close> or is reached from it by at most \<open>n\<close>
  iteration contexts, each the parent of the next and each holding the item found at its
  index in its array.
\<close>

primrec chained :: "nat \<Rightarrow> ctx \<Rightarrow> ctx \<Rightarrow> bool" where
  "chained 0 outer c = (c = outer)"
| "chained (Suc n) outer c =
     (c = outer \<or>
      (case ctx_parent c of
         None \<Rightarrow> False
       | Some p \<Rightarrow> ctx_i c < length (ctx_data c) \<and> ctx_d c = ctx_data c ! ctx_i c \<and> chained n outer p))"

text \<open>No caller-supplied function throws.\<close>

definition nothrow :: "env \<Rightarrow> bool" where
  "nothrow E = (\<forall>f c. \<exists>v. fn_call E f c = Inr v)"

text \<open>The contexts above a context, nearest first.\<close>

fun ancestors :: "ctx \<Rightarrow> ctx list" where
  "ancestors (Ctx item index items None) = []"
| "ancestors (Ctx item index items (Some p)) = p # ancestors p"

text \<open>
  The functions of the repository's tests: function 0 is \<^verbatim>\<open>({ i }) => i * 30\<close>, function 1
  is \<^verbatim>\<open>({ d }) => d\<close> and function 2 is \<^verbatim>\<open>({ parent }) => parent.i === 0 ? 'red' : 'blue'\<close>,
  which throws where there is no parent.
\<close>

definition testEnv :: env where
  "testEnv =
     \<lparr>fn_call = (\<lambda>f c.
          if f = 0 then Inr (JNum (of_nat (ctx_i c) * 30))
          else if f = 1 then Inr (ctx_d c)
          else if f = 2 then
            (case ctx_parent c of
               None \<Rightarrow> Inl (Thrown (JStr ''TypeError''))
             | Some p \<Rightarrow> Inr (JStr (if ctx_i p = 0 then ''red'' else ''blue'')))
          else Inr JUndefined),
      fn_source = (\<lambda>f. []), num_string = (\<lambda>x. []), obj_string = (\<lambda>es. [])\<rparr>"

text \<open>The descriptions of the tests for nested and for simple repetition.\<close>

definition nestedGrid :: "jsval list" where
  "nestedGrid = [JArr [JNum 1, JNum 2], JArr [JNum 3, JNum 4]]"

definition nestedDef :: "(string \<times> jsval) list" where
  "nestedDef = [(''$each'', JArr nestedGrid), (''rect'', JObj [(''$each'', JFun 1), (''fill'', JFun 2)])]"

definition repeatDef :: "(string \<times> jsval) list" where
  "repeatDef = [(''$each'', JArr [JNum 1, JNum 2, JNum 3]), (''x'', JFun 0), (''width'', JNum 25)]"

section \<open>Escaping\<close>

lemma replaceAll_Nil: "replaceAll c rep [] = []"
  by (simp add: replaceAll_def)

lemma replaceAll_Cons:
  "replaceAll c rep (x # xs) = (if x = c then rep else [x]) @ replaceAll c rep xs"
  by (simp add: replaceAll_def)

lemma replaceAll_append:
  "replaceAll c rep (xs @ ys) = replaceAll c rep xs @ replaceAll c rep ys"
  by (simp add: replaceAll_def)

lemma escape_chain_char:
  "replaceAll CHR ''>'' ''&gt;''
     (replaceAll CHR ''<'' ''&lt;''
       (replaceAll dq ''&quot;''
         (replaceAll CHR ''&'' ''&amp;'' [x]))) = attrEntity x"
  by (simp add: replaceAll_Cons replaceAll_Nil attrEntity_def dq_def)

lemma escape_chain_concat:
  "replaceAll CHR ''>'' ''&gt;''
     (replaceAll CHR ''<'' ''&lt;''
       (replaceAll dq ''&quot;''
         (replaceAll CHR ''&'' ''&amp;'' s))) = concat (map attrEntity s)"
proof (induction s)
  case Nil
  show ?case by (simp add: replaceAll_Nil)
next
  case (Cons x xs)
  have "replaceAll CHR ''>'' ''&gt;''
          (replaceAll CHR ''<'' ''&lt;''
            (replaceAll dq ''&quot;''
              (replaceAll CHR ''&'' ''&amp;'' ([x] @ xs))))
        = attrEntity x @ concat (map attrEntity xs)"
    using Cons.IH escape_chain_char [of x]
    by (simp only: replaceAll_append)
  then show ?case by simp
qed

text \<open>
  C8. \<^verbatim>\<open>escapeAttr\<close> on a string is one left-to-right substitution of the four characters
  by their entities: replacing the ampersand first keeps the ampersands of the later
  entities untouched. On \<^verbatim>\<open>a < b & c > d "q"\<close> it gives
  \<^verbatim>\<open>a &lt; b &amp; c &gt; d &quot;q&quot;\<close>, and escaping twice escapes the entities again.
\<close>

theorem escapeAttr_single_pass:
  "escapeAttr E (JStr s) = concat (map attrEntity s)
   \<and> escapeAttr E (JStr (''a < b & c > d '' @ [dq] @ ''q'' @ [dq]))
       = ''a &lt; b &amp; c &gt; d &quot;q&quot;''
   \<and> escapeAttr E (JStr (escapeAttr E (JStr ''&''))) = ''&amp;amp;''
   \<and> escapeAttr E (JStr (escapeAttr E (JStr ''&''))) \<noteq> escapeAttr E (JStr ''&'')"
proof -
  have a: "\<And>t. escapeAttr E (JStr t) = concat (map attrEntity t)"
    by (simp add: escapeAttr_def escape_chain_concat)
  show ?thesis
    by (simp add: a attrEntity_def dq_def)
qed

section \<open>Basic facts\<close>

lemma bindRes_Inr [simp]: "bindRes (Inr x, t) f = (fst (f x), t @ snd (f x))"
  by (simp add: bindRes_def split: prod.splits)

lemma bindRes_Inl [simp]: "bindRes (Inl e, t) f = (Inl e, t)"
  by (simp add: bindRes_def)

lemma special_startsWith: "isSpecial key \<Longrightarrow> startsWith key ''$''"
  by (auto simp: isSpecial_def SPECIAL_KEYS_def startsWith_def)

lemma element_not_dollar: "isElement key \<Longrightarrow> \<not> startsWith key ''$''"
  by (auto simp: isElement_def SVG_ELEMENTS_def startsWith_def)

lemma element_not_special: "isElement key \<Longrightarrow> \<not> isSpecial key"
  using special_startsWith element_not_dollar by blast

lemma getProp_single_other: "key \<noteq> k \<Longrightarrow> getProp [(key, v)] k = JUndefined"
  by (simp add: getProp_def)

lemma isSpecial_if: "isSpecial ''$if''"
  by (simp add: isSpecial_def SPECIAL_KEYS_def)

section \<open>Key classification\<close>

text \<open>
  C1, as the code has it. A key that is no element name, none of the five directives and
  does not begin with \<^verbatim>\<open>$\<close> is an attribute. A key that begins with \<^verbatim>\<open>$\<close> and is none of
  the five directives is in none of the three classes: the loop of \<^verbatim>\<open>renderElement\<close>
  passes over it, evaluating nothing and raising nothing. Element names and directives are
  disjoint from each other and from the attributes.
\<close>

theorem key_classes:
  "(\<not> isElement key \<and> \<not> isSpecial key \<and> \<not> startsWith key ''$'' \<longrightarrow> isAttribute key)
   \<and> (startsWith key ''$'' \<and> \<not> isSpecial key \<longrightarrow>
        \<not> isElement key \<and> \<not> isAttribute key \<and> collectStep E c (key, v) acc = (Inr acc, []))
   \<and> (isElement key \<longrightarrow> \<not> isSpecial key \<and> \<not> isAttribute key)
   \<and> (isSpecial key \<longrightarrow> \<not> isElement key \<and> \<not> isAttribute key)"
  using special_startsWith [of key] element_not_dollar [of key]
  by (auto simp: isAttribute_def collectStep_def)

theorem key_classes_witness:
  "\<not> isElement ''data-info'' \<and> \<not> isSpecial ''data-info'' \<and> \<not> startsWith ''data-info'' ''$''
   \<and> isAttribute ''data-info''
   \<and> startsWith ''$foo'' ''$'' \<and> \<not> isSpecial ''$foo''
   \<and> collectStep noFunctions createEmptyContext (''$foo'', JStr ''x'') emptyCollected
        = (Inr emptyCollected, [])
   \<and> isElement ''rect'' \<and> \<not> isAttribute ''rect''
   \<and> isSpecial ''$key'' \<and> \<not> isAttribute ''$key''"
proof -
  have h: "\<not> isElement ''data-info''" "\<not> isSpecial ''data-info''"
    "\<not> startsWith ''data-info'' ''$''" "startsWith ''$foo'' ''$''" "\<not> isSpecial ''$foo''"
    "isElement ''rect''" "isSpecial ''$key''"
    by (simp_all add: isElement_def SVG_ELEMENTS_def isSpecial_def SPECIAL_KEYS_def startsWith_def)
  show ?thesis
    using h key_classes [of "''data-info''"]
      key_classes [of "''$foo''" noFunctions createEmptyContext "JStr ''x''" emptyCollected]
      key_classes [of "''rect''"] key_classes [of "''$key''"]
    by blast
qed

text \<open>
  The claim as written fails at the key \<^verbatim>\<open>$foo\<close>: it is neither an element name nor a
  directive, yet it is no attribute, and a node that carries it renders as if it did not.
\<close>

theorem dollar_key_counterexample:
  "\<not> isElement ''$foo'' \<and> \<not> isSpecial ''$foo'' \<and> \<not> isAttribute ''$foo''
   \<and> renderElement noFunctions ''g'' [(''$foo'', JStr ''x'')] createEmptyContext
         \<lparr>pretty = False, indent = 0\<rparr>
       = (Inr ''<g/>'', [])"
  by (simp add: isElement_def SVG_ELEMENTS_def isSpecial_def SPECIAL_KEYS_def startsWith_def
      isAttribute_def renderElement.simps getProp_def collectStep_def emptyCollected_def
      emitElement_def padOf_def nlOf_def)

section \<open>Repetition\<close>



section \<open>The namespace attribute\<close>

lemma setProp_Cons_other:
  "k \<noteq> fst x \<Longrightarrow> \<not> isArrayIndex k \<Longrightarrow> setProp (x # acc) k v = x # setProp acc k v"
  by (simp add: setProp_def)

lemma spread_Cons_other:
  "\<forall>kv \<in> set es. fst kv \<noteq> fst x \<and> \<not> isArrayIndex (fst kv) \<Longrightarrow>
     spread (x # acc) es = x # spread acc es"
  unfolding spread_def
  by (induction es arbitrary: acc) (simp_all add: setProp_Cons_other)

lemma map_fst_update:
  "map fst (map (\<lambda>kv. if fst kv = k then (k, v) else kv) es) = map fst es"
  by (induction es) auto

lemma map_of_update_gen:
  "map_of (map (\<lambda>kv. if fst kv = k then (k, v) else kv) es) k' =
       (if k' = k then map_option (\<lambda>_. v) (map_of es k) else map_of es k')"
  by (induction es) auto

lemma map_of_update:
  assumes "k \<in> set (map fst es)"
  shows "map_of (map (\<lambda>kv. if fst kv = k then (k, v) else kv) es) k' =
       (if k' = k then Some v else map_of es k')"
proof -
  from assms obtain y where "map_of es k = Some y"
    by (cases "map_of es k") (auto simp: map_of_eq_None_iff)
  then show ?thesis by (simp add: map_of_update_gen)
qed

lemma insert_distinct:
  assumes d: "distinct (map fst (xs @ ys))" and k: "k \<notin> set (map fst (xs @ ys))"
  shows "distinct (map fst (xs @ [(k, v)] @ ys))"
  using d k by auto

lemma insert_map_of:
  assumes k: "k \<notin> set (map fst (xs @ ys))"
  shows "map_of (xs @ [(k, v)] @ ys) k' = (if k' = k then Some v else map_of (xs @ ys) k')"
proof (cases "k' = k")
  case True
  from k have "map_of xs k = None" by (simp add: map_of_eq_None_iff)
  with True show ?thesis by (simp add: map_add_def)
next
  case False
  then show ?thesis by (simp add: map_add_def split: option.splits)
qed

lemma setProp_distinct:
  assumes d: "distinct (map fst es)"
  shows "distinct (map fst (setProp es k v))"
proof (cases "k \<in> set (map fst es)")
  case True
  with d show ?thesis by (simp only: setProp_def if_True map_fst_update)
next
  case False
  let ?P = "\<lambda>kv. isArrayIndex (fst kv) \<and> readNat (fst kv) < readNat k"
  have "distinct (map fst (takeWhile ?P es @ [(k, v)] @ dropWhile ?P es))"
    by (rule insert_distinct) (use d False in simp_all)
  moreover have "distinct (map fst (es @ [(k, v)]))"
    using d False by simp
  ultimately show ?thesis using False by (simp only: setProp_def if_False split: if_split) simp
qed

lemma setProp_map_of:
  "map_of (setProp es k v) k' = (if k' = k then Some v else map_of es k')"
proof (cases "k \<in> set (map fst es)")
  case True
  then show ?thesis by (simp only: setProp_def if_True map_of_update)
next
  case False
  let ?P = "\<lambda>kv. isArrayIndex (fst kv) \<and> readNat (fst kv) < readNat k"
  have "map_of (takeWhile ?P es @ [(k, v)] @ dropWhile ?P es) k'
          = (if k' = k then Some v else map_of (takeWhile ?P es @ dropWhile ?P es) k')"
    by (rule insert_map_of) (use False in simp)
  then have a: "map_of (takeWhile ?P es @ [(k, v)] @ dropWhile ?P es) k'
          = (if k' = k then Some v else map_of es k')"
    by (simp only: takeWhile_dropWhile_id)
  from False have "map_of es k = None" by (simp add: map_of_eq_None_iff)
  then have b: "map_of (es @ [(k, v)]) k' = (if k' = k then Some v else map_of es k')"
    by (auto simp: map_add_def split: option.splits)
  show ?thesis
    using False a b by (simp only: setProp_def if_False split: if_split) simp
qed

lemma spread_distinct:
  "distinct (map fst target) \<Longrightarrow> distinct (map fst (spread target source))"
  unfolding spread_def
  by (induction source arbitrary: target) (simp_all add: setProp_distinct)

lemma spread_map_of:
  "map_of source k = Some v \<Longrightarrow> distinct (map fst source) \<Longrightarrow>
     map_of (spread target source) k = Some v"
  unfolding spread_def
proof (induction source arbitrary: target)
  case Nil
  then show ?case by simp
next
  case (Cons kv source)
  show ?case
  proof (cases "fst kv = k")
    case True
    with Cons.prems have v: "snd kv = v" and nk: "k \<notin> set (map fst source)"
      by (cases kv; auto)+
    have "\<And>tg. map_of tg k = Some v \<Longrightarrow> map_of (foldl (\<lambda>obj kv. setProp obj (fst kv) (snd kv)) tg source) k = Some v"
      using nk
    proof (induction source)
      case Nil
      then show ?case by simp
    next
      case (Cons a source)
      then show ?case by (simp add: setProp_map_of)
    qed
    then show ?thesis using True v by (simp add: setProp_map_of)
  next
    case False
    with Cons.prems have "map_of source k = Some v" "distinct (map fst source)"
      by (cases kv; auto)+
    from Cons.IH [OF this] show ?thesis by simp
  qed
qed


lemma bindRes_eq_Inr:
  assumes "bindRes m f = (Inr y, t)"
  obtains x t1 t2 where "m = (Inr x, t1)" "f x = (Inr y, t2)" "t = t1 @ t2"
proof (cases m)
  case (Pair r t1)
  show ?thesis
  proof (cases r)
    case (Inl e)
    with Pair assms show ?thesis by simp
  next
    case (Inr x)
    with Pair assms have "(fst (f x), t1 @ snd (f x)) = (Inr y, t)" by simp
    then have "f x = (Inr y, snd (f x))" "t = t1 @ snd (f x)"
      by (simp_all add: prod_eq_iff)
    with Pair Inr that show ?thesis by blast
  qed
qed

lemma collectStep_attrs_prefix:
  "collectStep E c kv acc = (Inr acc', t) \<Longrightarrow> prefix (attributes acc) (attributes acc')"
  by (cases kv) (auto simp: collectStep_def bindRes_def split: if_splits prod.splits sum.splits)

lemma collectLoop_attrs_prefix:
  "collectLoop E c es acc = (Inr col, t) \<Longrightarrow> prefix (attributes acc) (attributes col)"
proof (induction es arbitrary: acc t)
  case Nil
  then show ?case by simp
next
  case (Cons kv es)
  from Cons.prems obtain acc' t1 t2 where
    "collectStep E c kv acc = (Inr acc', t1)" "collectLoop E c es acc' = (Inr col, t2)"
    by (auto elim: bindRes_eq_Inr)
  then show ?case
    using collectStep_attrs_prefix Cons.IH prefix_order.trans by blast
qed

lemma renderElement_Inr:
  assumes "renderElement E tagName es c opts = (Inr s, t)" and "s \<noteq> []"
  obtains col cs t1 where "collectLoop E c es emptyCollected = (Inr col, t1)"
    and "s = emitElement E tagName opts col cs"
proof -
  from assms(1) obtain cond t0 t' where
    r: "(if \<not> truthy cond then (Inr [], [])
          else bindRes (collectLoop E c es emptyCollected)
              (\<lambda>col. bindRes (joinRes (map (\<lambda>child. renderNode E (fst child) (snd child) c
                                                  (opts\<lparr>indent := indent opts + 1\<rparr>))
                                    (children col)))
                   (\<lambda>childrenStr. (Inr (emitElement E tagName opts col childrenStr), [])))) = (Inr s, t')"
    unfolding renderElement.simps by (elim bindRes_eq_Inr)
  with assms(2) have tc: "truthy cond" by (auto split: if_splits)
  with r obtain col t1 t2 where c: "collectLoop E c es emptyCollected = (Inr col, t1)"
    and r2: "bindRes (joinRes (map (\<lambda>child. renderNode E (fst child) (snd child) c
                                                  (opts\<lparr>indent := indent opts + 1\<rparr>))
                                    (children col)))
                   (\<lambda>childrenStr. (Inr (emitElement E tagName opts col childrenStr), [])) = (Inr s, t2)"
    by (auto elim: bindRes_eq_Inr)
  from r2 obtain cs where "s = emitElement E tagName opts col cs"
    by (auto elim!: bindRes_eq_Inr)
  with c that show ?thesis by blast
qed

lemma joinWith_Cons_prefix: "prefix x (joinWith sep (x # xs))"
  by (cases xs) simp_all

lemma emitElement_prefix:
  "prefix (padOf opts @ ''<'' @ tagName @ (if attributes col \<noteq> [] then '' '' @ joinWith '' '' (attributes col) else []))
     (emitElement E tagName opts col cs)"
  by (simp add: emitElement_def Let_def)

lemma dropWhile_last: "dropWhile P xs \<noteq> [] \<Longrightarrow> last (dropWhile P xs) = last xs"
  by (induction xs) (auto split: if_splits)

lemma trim_ends: "trim s = [] \<or> (\<not> isTrimSpace (hd (trim s)) \<and> \<not> isTrimSpace (last (trim s)))"
proof (cases "trim s = []")
  case True
  then show ?thesis by simp
next
  case False
  let ?y = "dropWhile isTrimSpace s"
  let ?z = "dropWhile isTrimSpace (rev ?y)"
  from False have z: "?z \<noteq> []" by (simp add: trim_def)
  then have y: "?y \<noteq> []" by (cases "?y") simp_all
  have "last (trim s) = hd ?z" using z by (simp add: trim_def last_rev)
  moreover have "\<not> isTrimSpace (hd ?z)" using z by (rule hd_dropWhile)
  moreover have "hd (trim s) = last ?z" using z by (simp add: trim_def hd_rev)
  moreover have "last ?z = last (rev ?y)" using z by (rule dropWhile_last)
  moreover have "last (rev ?y) = hd ?y" using y by (simp add: last_rev)
  moreover have "\<not> isTrimSpace (hd ?y)" using y by (rule hd_dropWhile)
  ultimately show ?thesis by simp
qed

lemma trim_prefix:
  assumes p: "prefix P s" and ne: "P \<noteq> []" and h: "\<not> isTrimSpace (hd P)" and l: "\<not> isTrimSpace (last P)"
  shows "prefix P (trim s)"
proof -
  from p obtain more where s: "s = P @ more" by (auto simp: prefix_def)
  from ne h have d: "dropWhile isTrimSpace (P @ more) = P @ more"
    by (cases P) auto
  from ne l have r: "dropWhile isTrimSpace (rev P) = rev P"
    by (cases "rev P") (auto simp: last_rev [symmetric] simp del: last_rev)
  have "dropWhile isTrimSpace (rev more @ rev P) =
          (if \<forall>x \<in> set (rev more). isTrimSpace x then rev P
           else dropWhile isTrimSpace (rev more) @ rev P)"
    by (simp add: dropWhile_append r)
  then have "trim s = P @ (if \<forall>x \<in> set (rev more). isTrimSpace x then []
                           else rev (dropWhile isTrimSpace (rev more)))"
    by (simp add: trim_def s d)
  then show ?thesis by (simp add: prefix_def)
qed


lemma escapeAttr_namespace: "escapeAttr E (JStr svgNamespace) = svgNamespace"
  by (simp add: escapeAttr_def svgNamespace_def replaceAll_def dq_def)

lemma isAttribute_xmlns: "isAttribute ''xmlns''"
  by (simp add: isAttribute_def isElement_def SVG_ELEMENTS_def isSpecial_def SPECIAL_KEYS_def
      startsWith_def)

lemma collect_xmlns_first:
  assumes "collectLoop E c ((''xmlns'', JStr svgNamespace) # es) emptyCollected = (Inr col, t)"
  shows "prefix [''xmlns='' @ [dq] @ svgNamespace @ [dq]] (attributes col)"
proof -
  have st: "collectStep E c (''xmlns'', JStr svgNamespace) emptyCollected =
          (Inr (emptyCollected\<lparr>attributes := [''xmlns='' @ [dq] @ svgNamespace @ [dq]]\<rparr>), [])"
    using isAttribute_xmlns
    by (simp add: collectStep_def isAttribute_def evaluate_def escapeAttr_namespace
        emptyCollected_def)
  with assms have "collectLoop E c es (emptyCollected\<lparr>attributes := [''xmlns='' @ [dq] @ svgNamespace @ [dq]]\<rparr>)
      = (Inr col, t)"
    by (simp add: prod_eq_iff)
  from collectLoop_attrs_prefix [OF this] show ?thesis by simp
qed

lemma svg_prefix:
  assumes r: "svg E es p = (Inr s, t)" and ne: "s \<noteq> []"
    and keys: "\<forall>kv \<in> set es. fst kv \<noteq> ''xmlns'' \<and> \<not> isArrayIndex (fst kv)"
  shows "prefix (''<svg xmlns='' @ [dq] @ svgNamespace @ [dq]) s"
proof -
  define X where "X = ''xmlns='' @ [dq] @ svgNamespace @ [dq]"
  let ?root = "spread [(''xmlns'', JStr svgNamespace)] es"
  let ?o = "\<lparr>pretty = p, indent = 0\<rparr>"
  from r obtain s0 t0 where r0: "renderElement E ''svg'' ?root createEmptyContext ?o = (Inr s0, t0)"
    and s: "s = trim s0"
    unfolding svg_def Let_def by (auto elim!: bindRes_eq_Inr)
  from s ne have ne0: "s0 \<noteq> []" by (auto simp: trim_def)
  from keys have root: "?root = (''xmlns'', JStr svgNamespace) # spread [] es"
    by (intro spread_Cons_other) simp
  from renderElement_Inr [OF r0 ne0] obtain col cs t1 where
    c: "collectLoop E createEmptyContext ?root emptyCollected = (Inr col, t1)"
    and e: "s0 = emitElement E ''svg'' ?o col cs"
    by blast
  from c have "prefix [X] (attributes col)"
    unfolding root X_def by (rule collect_xmlns_first)
  then obtain more where a: "attributes col = X # more"
    by (auto simp: prefix_def)
  have "prefix X (joinWith '' '' (attributes col))"
    unfolding a by (rule joinWith_Cons_prefix)
  then obtain rest where j: "joinWith '' '' (attributes col) = X @ rest"
    by (auto simp: prefix_def)
  have "prefix (padOf ?o @ ''<'' @ ''svg'' @ (if attributes col \<noteq> [] then '' '' @ joinWith '' '' (attributes col) else []))
     s0"
    unfolding e by (rule emitElement_prefix)
  then obtain zs where "s0 = padOf ?o @ ''<'' @ ''svg'' @ (if attributes col \<noteq> [] then '' '' @ joinWith '' '' (attributes col) else []) @ zs"
    by (auto simp: prefix_def)
  then have "s0 = (''<svg '' @ X) @ (rest @ zs)"
    unfolding j by (simp add: a padOf_def)
  then have "prefix (''<svg '' @ X) s0"
    unfolding prefix_def by blast
  then have "prefix (''<svg '' @ X) s"
    unfolding s by (rule trim_prefix) (simp_all add: isTrimSpace_def dq_def X_def)
  then show ?thesis by (simp add: X_def)
qed

text \<open>
  C2, as the code has it. The root description is \<^verbatim>\<open>{ xmlns: ..., ...definition }\<close>: it never
  holds two \<^verbatim>\<open>xmlns\<close> entries, and a caller's \<^verbatim>\<open>xmlns\<close> replaces the fixed value. Every
  result of \<^verbatim>\<open>svg\<close> is trimmed. When the caller's description has no \<^verbatim>\<open>xmlns\<close> key and no
  integer-like key, a non-empty result begins with \<^verbatim>\<open><svg\<close> followed by the fixed namespace
  attribute, ahead of every other attribute.
\<close>

theorem svg_namespace:
  "distinct (map fst (spread [(''xmlns'', JStr svgNamespace)] es))
   \<and> (distinct (map fst es) \<and> map_of es ''xmlns'' = Some v \<longrightarrow>
        getProp (spread [(''xmlns'', JStr svgNamespace)] es) ''xmlns'' = v)
   \<and> (svg E es p = (Inr s, t) \<longrightarrow>
        s = [] \<or> (\<not> isTrimSpace (hd s) \<and> \<not> isTrimSpace (last s)))
   \<and> (svg E es p = (Inr s, t) \<and> s \<noteq> []
        \<and> (\<forall>kv \<in> set es. fst kv \<noteq> ''xmlns'' \<and> \<not> isArrayIndex (fst kv)) \<longrightarrow>
        prefix (''<svg xmlns='' @ [dq] @ svgNamespace @ [dq]) s)"
proof (intro conjI impI)
  show "distinct (map fst (spread [(''xmlns'', JStr svgNamespace)] es))"
    by (rule spread_distinct) simp
next
  assume "distinct (map fst es) \<and> map_of es ''xmlns'' = Some v"
  then have "map_of (spread [(''xmlns'', JStr svgNamespace)] es) ''xmlns'' = Some v"
    by (intro spread_map_of) simp_all
  then show "getProp (spread [(''xmlns'', JStr svgNamespace)] es) ''xmlns'' = v"
    by (simp add: getProp_def)
next
  assume "svg E es p = (Inr s, t)"
  then obtain s0 where "s = trim s0"
    unfolding svg_def Let_def by (auto elim!: bindRes_eq_Inr)
  then show "s = [] \<or> (\<not> isTrimSpace (hd s) \<and> \<not> isTrimSpace (last s))"
    using trim_ends [of s0] by simp
next
  assume "svg E es p = (Inr s, t) \<and> s \<noteq> []
        \<and> (\<forall>kv \<in> set es. fst kv \<noteq> ''xmlns'' \<and> \<not> isArrayIndex (fst kv))"
  then show "prefix (''<svg xmlns='' @ [dq] @ svgNamespace @ [dq]) s"
    using svg_prefix by blast
qed

lemmas render_eval =
  svg_def spread_def setProp_def isArrayIndex_def isDigit_def renderElement.simps
  getProp_def collectStep_def isSpecial_def SPECIAL_KEYS_def isElement_def SVG_ELEMENTS_def
  isAttribute_def startsWith_def evaluate_def emptyCollected_def emitElement_def padOf_def
  nlOf_def escapeAttr_def replaceAll_def svgNamespace_def dq_def trim_def isTrimSpace_def
  createEmptyContext_def showInt_def showNat.simps digitChar_def

text \<open>
  A caller's \<^verbatim>\<open>xmlns\<close> overrides the fixed value and is emitted once; when it is null the
  output carries no namespace at all.
\<close>

theorem svg_override_counterexample:
  "svg noFunctions [(''xmlns'', JStr ''x'')] False = (Inr (''<svg xmlns='' @ [dq] @ ''x'' @ [dq] @ ''/>''), [])
   \<and> svg noFunctions [(''xmlns'', JNull)] False = (Inr ''<svg/>'', [])"
  by (simp add: render_eval)


text \<open>The first scenario of the specification.\<close>

lemma svg_scenario_1:
  "svg noFunctions [(''width'', JNum 100), (''height'', JNum 100)] False =
     (Inr (''<svg xmlns='' @ [dq] @ svgNamespace @ [dq] @ '' width='' @ [dq] @ ''100'' @ [dq]
            @ '' height='' @ [dq] @ ''100'' @ [dq] @ ''/>''), [])"
  by (simp add: render_eval)


theorem svg_namespace_witness:
  "svg noFunctions [(''width'', JNum 100), (''height'', JNum 100)] False =
     (Inr (''<svg xmlns='' @ [dq] @ svgNamespace @ [dq] @ '' width='' @ [dq] @ ''100'' @ [dq]
            @ '' height='' @ [dq] @ ''100'' @ [dq] @ ''/>''), [])
   \<and> prefix (''<svg xmlns='' @ [dq] @ svgNamespace @ [dq])
        (''<svg xmlns='' @ [dq] @ svgNamespace @ [dq] @ '' width='' @ [dq] @ ''100'' @ [dq]
            @ '' height='' @ [dq] @ ''100'' @ [dq] @ ''/>'')
   \<and> getProp (spread [(''xmlns'', JStr svgNamespace)] [(''xmlns'', JStr ''x'')]) ''xmlns'' = JStr ''x''"
proof -
  define S where "S = ''<svg xmlns='' @ [dq] @ svgNamespace @ [dq] @ '' width='' @ [dq] @ ''100'' @ [dq]
            @ '' height='' @ [dq] @ ''100'' @ [dq] @ ''/>''"
  let ?es = "[(''width'', JNum 100), (''height'', JNum 100)]"
  have r: "svg noFunctions ?es False = (Inr S, [])"
    unfolding S_def by (rule svg_scenario_1)
  have k: "\<forall>kv \<in> set ?es. fst kv \<noteq> ''xmlns'' \<and> \<not> isArrayIndex (fst kv)"
    by (simp add: isArrayIndex_def isDigit_def)
  have ne: "S \<noteq> []" by (simp add: S_def)
  have d: "distinct (map fst [(''xmlns'', JStr ''x'')])
           \<and> map_of [(''xmlns'', JStr ''x'')] ''xmlns'' = Some (JStr ''x'')"
    by simp
  have "prefix (''<svg xmlns='' @ [dq] @ svgNamespace @ [dq]) S"
    using svg_namespace [of ?es JNull noFunctions False S "[]"] r k ne by (elim conjE) simp
  moreover have "getProp (spread [(''xmlns'', JStr svgNamespace)] [(''xmlns'', JStr ''x'')]) ''xmlns''
                   = JStr ''x''"
    using svg_namespace [of "[(''xmlns'', JStr ''x'')]" "JStr ''x''" noFunctions False "[]" "[]"] d
    by (elim conjE) simp
  ultimately show ?thesis using r unfolding S_def by (intro conjI)
qed

section \<open>Effects of rendering\<close>

lemma bindRes_trace:
  "ev \<in> set (snd (bindRes m f)) \<Longrightarrow>
     ev \<in> set (snd m) \<or> (\<exists>x. fst m = Inr x \<and> ev \<in> set (snd (f x)))"
  by (auto simp: bindRes_def split: prod.splits sum.splits)

lemma joinRes_trace:
  "ev \<in> set (snd (joinRes ms)) \<Longrightarrow> \<exists>m \<in> set ms. ev \<in> set (snd m)"
proof (induction ms)
  case Nil
  then show ?case by simp
next
  case (Cons m ms)
  from Cons.prems have "ev \<in> set (snd m) \<or> ev \<in> set (snd (joinRes ms))"
    by (auto dest!: bindRes_trace)
  with Cons.IH show ?case by auto
qed

lemma evaluate_trace: "Called f c' \<in> set (snd (evaluate E v c)) \<Longrightarrow> c' = c"
  by (cases v) (auto simp: evaluate_def)

lemma collectStep_trace:
  "Called f c' \<in> set (snd (collectStep E c kv acc)) \<Longrightarrow> c' = c"
  by (cases kv) (auto simp: collectStep_def dest!: bindRes_trace evaluate_trace split: if_splits)

lemma collectLoop_trace:
  "Called f c' \<in> set (snd (collectLoop E c es acc)) \<Longrightarrow> c' = c"
proof (induction es arbitrary: acc)
  case Nil
  then show ?case by simp
next
  case (Cons kv es)
  from Cons.prems show ?case
    by (auto dest!: bindRes_trace dest: collectStep_trace Cons.IH)
qed

lemma collectStep_children_elem:
  "collectStep E c kv acc = (Inr acc', t) \<Longrightarrow>
     set (children acc') \<subseteq> set (children acc) \<union> {x. x = kv \<and> isElement (fst x)}"
  by (cases kv) (auto simp: collectStep_def bindRes_def split: if_splits prod.splits sum.splits)

lemma collectLoop_children_elem:
  "collectLoop E c es acc = (Inr col, t) \<Longrightarrow>
     set (children col) \<subseteq> set (children acc) \<union> {x \<in> set es. isElement (fst x)}"
proof (induction es arbitrary: acc t)
  case Nil
  then show ?case by simp
next
  case (Cons kv es)
  from Cons.prems obtain acc' t1 t2 where
    a: "collectStep E c kv acc = (Inr acc', t1)" and b: "collectLoop E c es acc' = (Inr col, t2)"
    by (auto elim: bindRes_eq_Inr)
  from collectStep_children_elem [OF a] Cons.IH [OF b] show ?case by auto
qed

lemma chained_refl: "chained n c c"
  by (cases n) simp_all

lemma chained_mono: "chained n outer c \<Longrightarrow> n \<le> m \<Longrightarrow> chained m outer c"
proof (induction n arbitrary: m c)
  case 0
  then show ?case by (simp add: chained_refl)
next
  case (Suc n)
  then obtain m' where m: "m = Suc m'" "n \<le> m'" by (cases m) auto
  from Suc.prems(1) Suc.IH [OF _ m(2)] show ?case
    unfolding m(1) by (auto split: option.splits)
qed

lemma chained_step:
  "chained n (Ctx (xs ! a) a xs (Some c)) c' \<Longrightarrow> a < length xs \<Longrightarrow> chained (Suc n) c c'"
proof (induction n arbitrary: c')
  case 0
  then show ?case by (simp add: chained_refl)
next
  case (Suc n)
  from Suc.prems(1) consider "c' = Ctx (xs ! a) a xs (Some c)"
    | p where "ctx_parent c' = Some p" "ctx_i c' < length (ctx_data c')"
        "ctx_d c' = ctx_data c' ! ctx_i c'" "chained n (Ctx (xs ! a) a xs (Some c)) p"
    by (auto split: option.splits)
  then show ?case
  proof cases
    case 1
    with Suc.prems(2) show ?thesis by (simp add: chained_refl)
  next
    case 2
    from Suc.IH [OF 2(4) Suc.prems(2)] 2(1,2,3) show ?thesis by simp
  qed
qed

lemma childDepth_entry:
  "kv \<in> set es \<Longrightarrow> isElement (fst kv) \<Longrightarrow> eachDepth (snd kv) \<le> childDepth es"
  unfolding childDepth_def by (induction es) auto

lemma eachDepth_elem: "df \<in> set defs \<Longrightarrow> eachDepth df \<le> eachDepth (JArr defs)"
  by (induction defs) auto

lemma childDepth_removeKey: "childDepth (removeKey k es) \<le> childDepth es"
  unfolding childDepth_def removeKey_def by (induction es) auto

lemma eachDepth_JObj:
  "eachDepth (JObj es) = (if getProp es ''$each'' \<noteq> JUndefined then 1 else 0) + childDepth es"
  by (simp add: childDepth_def)

lemma leaf_trace:
  assumes "Called f c' \<in> set (snd (bindRes (evaluate E v c) (\<lambda>x. (Inr (g x), []))))"
  shows "c' = c"
  using assms by (auto dest!: bindRes_trace evaluate_trace)

lemma joinRes_map_trace:
  assumes "ev \<in> set (snd (joinRes (map g xs)))"
  obtains x where "x \<in> set xs" "ev \<in> set (snd (g x))"
proof -
  from joinRes_trace [OF assms] obtain m where "m \<in> set (map g xs)" "ev \<in> set (snd m)"
    by blast
  then obtain x where "x \<in> set xs" "m = g x" by auto
  with \<open>ev \<in> set (snd m)\<close> that show ?thesis by blast
qed

lemma render_contexts:
  "Called f c' \<in> set (snd (renderNode E tagName df c opts)) \<Longrightarrow> chained (eachDepth df) c c'"
  "Called f c' \<in> set (snd (renderElement E tagName es c opts)) \<Longrightarrow> chained (childDepth es) c c'"
proof (induction E tagName df c opts and E tagName es c opts
    rule: renderNode_renderElement.induct)
  case (1 E tagName defs c opts)
  from 1(2) obtain df where df: "df \<in> set defs"
    and ev: "Called f c' \<in> set (snd (renderNode E tagName df c opts))"
    unfolding renderNode.simps by (rule joinRes_map_trace)
  from 1(1) [OF df ev] eachDepth_elem [OF df] show ?case
    by (rule chained_mono)
next
  case (2 E tagName es c opts)
  show ?case
  proof (cases "getProp es ''$each'' \<noteq> JUndefined")
    case False
    with 2(3) have "Called f c' \<in> set (snd (renderElement E tagName es c opts))"
      by (simp add: renderNode.simps)
    from 2(2) [OF False this] False show ?thesis
      by (simp add: eachDepth_JObj del: eachDepth.simps)
  next
    case True
    let ?body = "\<lambda>dataSource. case dataSource of
               JArr items \<Rightarrow>
                 joinRes (map (\<lambda>index. renderElement E tagName (removeKey ''$each'' es)
                                          (Ctx (items ! index) index items (Some c)) opts)
                           [0..<length items])
             | _ \<Rightarrow> (Inr [], [Warned dataSource])"
    from 2(3) True have "Called f c' \<in> set (snd (bindRes (evaluate E (getProp es ''$each'') c) ?body))"
      by (simp add: renderNode.simps)
    then consider "Called f c' \<in> set (snd (evaluate E (getProp es ''$each'') c))"
      | x where "fst (evaluate E (getProp es ''$each'') c) = Inr x" "Called f c' \<in> set (snd (?body x))"
      by (auto dest!: bindRes_trace)
    then show ?thesis
    proof cases
      case 1
      then have "c' = c" by (rule evaluate_trace)
      then show ?thesis by (simp add: chained_refl)
    next
      case (2 x)
      show ?thesis
      proof (cases x)
        case (JArr items)
        with 2(2) obtain a where a: "a \<in> set [0..<length items]"
          and ev: "Called f c' \<in> set (snd (renderElement E tagName (removeKey ''$each'' es)
                                          (Ctx (items ! a) a items (Some c)) opts))"
          by (auto elim: joinRes_map_trace)
        from 2(1) have e: "evaluate E (getProp es ''$each'') c = (Inr x, snd (evaluate E (getProp es ''$each'') c))"
          by (simp add: prod_eq_iff)
        from "2.IH"(1) [OF True e JArr a ev]
        have "chained (childDepth (removeKey ''$each'' es)) (Ctx (items ! a) a items (Some c)) c'" .
        then have "chained (childDepth es) (Ctx (items ! a) a items (Some c)) c'"
          using childDepth_removeKey by (rule chained_mono)
        then have "chained (Suc (childDepth es)) c c'"
          using a by (intro chained_step) simp_all
        with True show ?thesis by (simp add: eachDepth_JObj del: eachDepth.simps)
      qed (use 2(2) in simp_all)
    qed
  qed
next
  case (4 E tagName es c opts)
  let ?cond = "if getProp es ''$if'' \<noteq> JUndefined then evaluate E (getProp es ''$if'') c
              else (Inr (JBool True), [])"
  let ?kids = "\<lambda>col. joinRes (map (\<lambda>child. renderNode E (fst child) (snd child) c
                                                  (opts\<lparr>indent := indent opts + 1\<rparr>))
                                    (children col))"
  from 4(2) consider "Called f c' \<in> set (snd ?cond)"
    | x where "fst ?cond = Inr x" "truthy x"
        "Called f c' \<in> set (snd (collectLoop E c es emptyCollected))"
    | x col where "fst ?cond = Inr x" "truthy x"
        "fst (collectLoop E c es emptyCollected) = Inr col"
        "Called f c' \<in> set (snd (?kids col))"
    unfolding renderElement.simps
    by (auto dest!: bindRes_trace split: if_splits)
  then show ?case
  proof cases
    case 1
    then have "c' = c" by (auto dest: evaluate_trace split: if_splits)
    then show ?thesis by (simp add: chained_refl)
  next
    case 2
    then have "c' = c" by (auto dest: collectLoop_trace)
    then show ?thesis by (simp add: chained_refl)
  next
    case (3 x col)
    from 3(4) obtain child where ch: "child \<in> set (children col)"
      and ev: "Called f c' \<in> set (snd (renderNode E (fst child) (snd child) c
                                                  (opts\<lparr>indent := indent opts + 1\<rparr>)))"
      by (rule joinRes_map_trace)
    from 3(1) have e1: "?cond = (Inr x, snd ?cond)" by (simp add: prod_eq_iff)
    from 3(3) have e2: "collectLoop E c es emptyCollected = (Inr col, snd (collectLoop E c es emptyCollected))"
      by (simp add: prod_eq_iff)
    from 3(2) have tx: "\<not> \<not> truthy x" by simp
    from "4.IH" [OF e1 tx e2 ch ev]
    have "chained (eachDepth (snd child)) c c'" .
    moreover from collectLoop_children_elem [OF e2] ch
    have "child \<in> set es" "isElement (fst child)"
      by (auto simp: emptyCollected_def)
    then have "eachDepth (snd child) \<le> childDepth es" by (rule childDepth_entry)
    ultimately show ?thesis by (rule chained_mono)
  qed
qed (auto simp: renderNode.simps chained_refl dest!: leaf_trace)

section \<open>Rendering returns\<close>

lemma joinRes_Inr:
  "joinRes ms = (Inr s, t) \<Longrightarrow>
     \<exists>ps. length ps = length ms \<and> s = concat ps \<and> (\<forall>i < length ms. fst (ms ! i) = Inr (ps ! i))"
proof (induction ms arbitrary: s t)
  case Nil
  then show ?case by simp
next
  case (Cons m ms)
  from Cons.prems obtain x t1 t2 where m: "m = (Inr x, t1)"
    and r: "bindRes (joinRes ms) (\<lambda>r. (Inr (x @ r), [])) = (Inr s, t2)"
    by (auto elim: bindRes_eq_Inr)
  from r obtain y t3 where j: "joinRes ms = (Inr y, t3)" and s: "s = x @ y"
    by (auto elim!: bindRes_eq_Inr)
  from Cons.IH [OF j] obtain ps where ps: "length ps = length ms" "y = concat ps"
    "\<forall>i < length ms. fst (ms ! i) = Inr (ps ! i)"
    by blast
  have "\<forall>i < length (m # ms). fst ((m # ms) ! i) = Inr ((x # ps) ! i)"
    using m ps(3) by (auto simp: nth_Cons split: nat.splits)
  with ps(1,2) s show ?case
    by (intro exI [of _ "x # ps"]) simp
qed

lemma joinRes_total:
  "(\<And>m. m \<in> set ms \<Longrightarrow> \<exists>s. fst m = Inr s) \<Longrightarrow> \<exists>s t. joinRes ms = (Inr s, t)"
proof (induction ms)
  case Nil
  then show ?case by simp
next
  case (Cons m ms)
  from Cons.prems [of m] obtain x where "fst m = Inr x" by auto
  then have m: "m = (Inr x, snd m)" by (simp add: prod_eq_iff)
  from Cons.IH Cons.prems obtain y t where j: "joinRes ms = (Inr y, t)" by auto
  show ?case
    by (subst m) (simp add: j)
qed

lemma evaluate_total: "nothrow E \<Longrightarrow> \<exists>x. fst (evaluate E v c) = Inr x"
  by (cases v) (auto simp: evaluate_def nothrow_def)

lemma bindRes_total:
  assumes "\<exists>x. fst m = Inr x" and "\<And>x. \<exists>y. fst (f x) = Inr y"
  shows "\<exists>y. fst (bindRes m f) = Inr y"
proof -
  from assms(1) obtain x where "m = (Inr x, snd m)" by (auto simp: prod_eq_iff)
  then have "bindRes m f = (fst (f x), snd m @ snd (f x))"
    by (metis bindRes_Inr)
  with assms(2) show ?thesis by simp
qed

lemma collectStep_total:
  assumes "nothrow E"
  shows "\<exists>acc'. fst (collectStep E c kv acc) = Inr acc'"
proof -
  obtain k v where kv: "kv = (k, v)" by (cases kv)
  from evaluate_total [OF assms] obtain x tr where e: "evaluate E v c = (Inr x, tr)"
    by (metis prod.collapse)
  show ?thesis
    unfolding kv collectStep_def by (simp add: e)
qed

lemma collectLoop_total:
  assumes "nothrow E"
  shows "\<exists>col. fst (collectLoop E c es acc) = Inr col"
proof (induction es arbitrary: acc)
  case Nil
  show ?case by simp
next
  case (Cons kv es)
  show ?case
    unfolding collectLoop.simps
    by (rule bindRes_total) (use collectStep_total [OF assms] Cons.IH in auto)
qed

lemma render_total:
  assumes "nothrow E"
  shows "\<exists>s. fst (renderNode E tagName df c opts) = Inr s"
    and "\<exists>s. fst (renderElement E tagName es c opts) = Inr s"
  using assms
proof (induction E tagName df c opts and E tagName es c opts
    rule: renderNode_renderElement.induct)
  case (1 E tagName defs c opts)
  have "\<exists>s t. joinRes (map (\<lambda>df. renderNode E tagName df c opts) defs) = (Inr s, t)"
    by (rule joinRes_total) (use 1 in auto)
  then show ?case by (auto simp: renderNode.simps)
next
  case (2 E tagName es c opts)
  show ?case
  proof (cases "getProp es ''$each'' \<noteq> JUndefined")
    case False
    with 2(2) [OF False 2(3)] show ?thesis by (simp add: renderNode.simps)
  next
    case True
    from evaluate_total [OF 2(3)] obtain x tr where
      e: "evaluate E (getProp es ''$each'') c = (Inr x, tr)"
      by (metis prod.collapse)
    show ?thesis
    proof (cases x)
      case (JArr items)
      have "\<exists>s t. joinRes (map (\<lambda>index. renderElement E tagName (removeKey ''$each'' es)
                                          (Ctx (items ! index) index items (Some c)) opts)
                           [0..<length items]) = (Inr s, t)"
        by (rule joinRes_total) (use 2(1) [OF True e JArr _ 2(3)] in auto)
      with True e JArr show ?thesis by (auto simp: renderNode.simps)
    qed (use True e in \<open>simp_all add: renderNode.simps\<close>)
  qed
next
  case (4 E tagName es c opts)
  let ?cond = "if getProp es ''$if'' \<noteq> JUndefined then evaluate E (getProp es ''$if'') c
              else (Inr (JBool True), [])"
  from evaluate_total [OF 4(2)] obtain x tr where e1: "?cond = (Inr x, tr)"
    by (cases "getProp es ''$if'' \<noteq> JUndefined") (auto, metis prod.collapse)
  show ?case
  proof (cases "truthy x")
    case False
    then show ?thesis
      unfolding renderElement.simps e1 by simp
  next
    case True
    from collectLoop_total [OF 4(2)] obtain col t2 where
      e2: "collectLoop E c es emptyCollected = (Inr col, t2)"
      by (metis prod.collapse)
    have "\<exists>s t. joinRes (map (\<lambda>child. renderNode E (fst child) (snd child) c
                                                  (opts\<lparr>indent := indent opts + 1\<rparr>))
                                    (children col)) = (Inr s, t)"
      by (rule joinRes_total) (use 4(1) [OF e1 _ e2 _ 4(2)] True in auto)
    then show ?thesis
      unfolding renderElement.simps e1 using True e2 by auto
  qed
qed (auto simp: renderNode.simps intro!: bindRes_total evaluate_total)

section \<open>Repeat cardinality\<close>

lemma getProp_removeKey: "k' \<noteq> k \<Longrightarrow> getProp (removeKey k es) k' = getProp es k'"
  unfolding getProp_def removeKey_def by (induction es) auto

lemma renderElement_noif_prefix:
  assumes noif: "getProp es ''$if'' = JUndefined"
    and r: "renderElement E tagName es c opts = (Inr s, t)"
  shows "prefix (padOf opts @ ''<'' @ tagName) s"
proof -
  let ?kids = "\<lambda>col. joinRes (map (\<lambda>child. renderNode E (fst child) (snd child) c
                                                  (opts\<lparr>indent := indent opts + 1\<rparr>))
                                    (children col))"
  from r noif have "bindRes (collectLoop E c es emptyCollected)
              (\<lambda>col. bindRes (?kids col)
                   (\<lambda>childrenStr. (Inr (emitElement E tagName opts col childrenStr), []))) = (Inr s, t)"
    unfolding renderElement.simps by (simp add: prod_eq_iff)
  then obtain col t2 where "bindRes (?kids col)
                   (\<lambda>childrenStr. (Inr (emitElement E tagName opts col childrenStr), [])) = (Inr s, t2)"
    by (rule bindRes_eq_Inr)
  then obtain cs where "(Inr (emitElement E tagName opts col cs), []) = (Inr s, [])"
    by (rule bindRes_eq_Inr) auto
  then have "s = emitElement E tagName opts col cs" by simp
  then show ?thesis
    using emitElement_prefix [of opts tagName col E cs]
    by (auto simp: prefix_def)
qed

lemma renderNode_each:
  assumes each: "getProp es ''$each'' \<noteq> JUndefined"
      and ev: "evaluate E (getProp es ''$each'') c = (Inr (JArr xs), t)"
  shows "renderNode E tagName (JObj es) c opts =
           (let J = joinRes (map (\<lambda>a. renderElement E tagName (removeKey ''$each'' es)
                                         (Ctx (xs ! a) a xs (Some c)) opts)
                              [0..<length xs])
            in (fst J, t @ snd J))"
  using each ev by (simp add: renderNode.simps Let_def)

text \<open>
  C4. A node whose \<^verbatim>\<open>$each\<close> resolves to an array of \<open>N\<close> items and that has no \<^verbatim>\<open>$if\<close>
  renders, when no caller function throws, and its output is the concatenation of exactly
  \<open>N\<close> pieces in the order of the items: piece \<open>i\<close> is the element rendered for item \<open>i\<close>
  under its own iteration context and begins with the opening of the tag. For \<open>N = 0\<close> the
  output is empty.
\<close>

theorem each_cardinality:
  assumes each: "getProp es ''$each'' \<noteq> JUndefined"
      and ev: "evaluate E (getProp es ''$each'') c = (Inr (JArr items), t)"
      and noif: "getProp es ''$if'' = JUndefined"
  shows "(nothrow E \<longrightarrow> (\<exists>s. fst (renderNode E tagName (JObj es) c opts) = Inr s))
       \<and> (\<forall>s. fst (renderNode E tagName (JObj es) c opts) = Inr s \<longrightarrow>
            (\<exists>ps. length ps = length items \<and> s = concat ps
               \<and> (\<forall>i < length items.
                     fst (renderElement E tagName (removeKey ''$each'' es)
                            (Ctx (items ! i) i items (Some c)) opts) = Inr (ps ! i)
                     \<and> prefix (padOf opts @ ''<'' @ tagName) (ps ! i))))"
proof (intro conjI impI allI)
  assume "nothrow E"
  then show "\<exists>s. fst (renderNode E tagName (JObj es) c opts) = Inr s"
    by (rule render_total)
next
  fix s
  let ?piece = "\<lambda>a. renderElement E tagName (removeKey ''$each'' es)
                                         (Ctx (items ! a) a items (Some c)) opts"
  assume "fst (renderNode E tagName (JObj es) c opts) = Inr s"
  then have "fst (joinRes (map ?piece [0..<length items])) = Inr s"
    by (simp add: renderNode_each [OF each ev] Let_def)
  then have "joinRes (map ?piece [0..<length items]) = (Inr s, snd (joinRes (map ?piece [0..<length items])))"
    by (simp add: prod_eq_iff)
  from joinRes_Inr [OF this] obtain ps where ps: "length ps = length items" "s = concat ps"
    "\<forall>i < length items. fst (?piece i) = Inr (ps ! i)"
    by auto
  have ni: "getProp (removeKey ''$each'' es) ''$if'' = JUndefined"
    using noif by (simp add: getProp_removeKey)
  have "prefix (padOf opts @ ''<'' @ tagName) (ps ! i)" if "i < length items" for i
  proof -
    from ps(3) that have "?piece i = (Inr (ps ! i), snd (?piece i))"
      by (simp add: prod_eq_iff)
    with ni show ?thesis by (rule renderElement_noif_prefix)
  qed
  with ps show "\<exists>ps. length ps = length items \<and> s = concat ps
               \<and> (\<forall>i < length items.
                     fst (?piece i) = Inr (ps ! i)
                     \<and> prefix (padOf opts @ ''<'' @ tagName) (ps ! i))"
    by blast
qed

section \<open>Context chaining\<close>

lemma ancestors_size: "x \<in> set (ancestors c) \<Longrightarrow> size x < size c"
proof (induction c arbitrary: x)
  case (Ctx item index items par)
  show ?case
  proof (cases par)
    case None
    with Ctx.prems show ?thesis by simp
  next
    case (Some p)
    with Ctx.prems have "x = p \<or> x \<in> set (ancestors p)" by simp
    then show ?thesis
    proof
      assume "x = p"
      with Some show ?thesis by simp
    next
      assume "x \<in> set (ancestors p)"
      from Ctx.IH [of p x] Some this have "size x < size p" by simp
      with Some show ?thesis by simp
    qed
  qed
qed

lemma ancestors_acyclic: "c \<notin> set (ancestors c)"
  using ancestors_size [of c c] by auto

lemma chained_last:
  "chained n outer c \<Longrightarrow> ancestors outer = [] \<Longrightarrow> last (c # ancestors c) = outer"
proof (induction n arbitrary: c)
  case 0
  then show ?case by simp
next
  case (Suc n)
  show ?case
  proof (cases "c = outer")
    case True
    with Suc.prems(2) show ?thesis by simp
  next
    case False
    with Suc.prems(1) obtain p where p: "ctx_parent c = Some p" "chained n outer p"
      by (auto split: option.splits)
    from p(1) have "ancestors c = p # ancestors p" by (cases c) simp
    with Suc.IH [OF p(2) Suc.prems(2)] show ?thesis by simp
  qed
qed

lemma svg_trace:
  "ev \<in> set (snd (svg E rootDef p)) \<Longrightarrow>
     ev \<in> set (snd (renderElement E ''svg'' (spread [(''xmlns'', JStr svgNamespace)] rootDef)
                       createEmptyContext \<lparr>pretty = p, indent = 0\<rparr>))"
  unfolding svg_def Let_def by (auto dest!: bindRes_trace)

text \<open>
  C9. A node whose \<^verbatim>\<open>$each\<close> resolves to the array \<open>xs\<close> renders item \<open>a\<close> under the one
  context \<open>Ctx (xs ! a) a xs (Some c)\<close>, whose parent is the context \<open>c\<close> in which the node
  was met. Every context handed to a caller function while item \<open>a\<close> is rendered is that
  context or descends from it by at most as many iteration contexts as repeats nest
  below the node; with one nested repeat it is that context or a context whose parent is
  that context, so the parent's index is \<open>a\<close>. Every context handed out during \<^verbatim>\<open>svg\<close> has
  the empty context, which has no parent, as its outermost ancestor, and no context is
  among its own ancestors.
\<close>

theorem nested_each_contexts:
  assumes each: "getProp es ''$each'' \<noteq> JUndefined"
      and ev: "evaluate E (getProp es ''$each'') c = (Inr (JArr xs), t)"
  shows "renderNode E tagName (JObj es) c opts =
           (let J = joinRes (map (\<lambda>a. renderElement E tagName (removeKey ''$each'' es)
                                         (Ctx (xs ! a) a xs (Some c)) opts)
                              [0..<length xs])
            in (fst J, t @ snd J))
       \<and> (\<forall>a f c'. a < length xs
              \<and> Called f c' \<in> set (snd (renderElement E tagName (removeKey ''$each'' es)
                                            (Ctx (xs ! a) a xs (Some c)) opts)) \<longrightarrow>
              chained (childDepth es) (Ctx (xs ! a) a xs (Some c)) c'
              \<and> (childDepth es \<le> 1 \<longrightarrow>
                    c' = Ctx (xs ! a) a xs (Some c)
                    \<or> (\<exists>p. ctx_parent c' = Some p \<and> p = Ctx (xs ! a) a xs (Some c) \<and> ctx_i p = a)))
       \<and> (\<forall>f c'. Called f c' \<in> set (snd (svg E rootDef p)) \<longrightarrow>
              last (c' # ancestors c') = createEmptyContext \<and> c' \<notin> set (ancestors c'))"
proof (intro conjI allI impI)
  show "renderNode E tagName (JObj es) c opts =
           (let J = joinRes (map (\<lambda>a. renderElement E tagName (removeKey ''$each'' es)
                                         (Ctx (xs ! a) a xs (Some c)) opts)
                              [0..<length xs])
            in (fst J, t @ snd J))"
    using each ev by (rule renderNode_each)
next
  fix a f c'
  assume a: "a < length xs
              \<and> Called f c' \<in> set (snd (renderElement E tagName (removeKey ''$each'' es)
                                            (Ctx (xs ! a) a xs (Some c)) opts))"
  then have "Called f c' \<in> set (snd (renderElement E tagName (removeKey ''$each'' es)
                                            (Ctx (xs ! a) a xs (Some c)) opts))"
    by simp
  then have "chained (childDepth (removeKey ''$each'' es)) (Ctx (xs ! a) a xs (Some c)) c'"
    by (rule render_contexts(2))
  then show ch: "chained (childDepth es) (Ctx (xs ! a) a xs (Some c)) c'"
    using childDepth_removeKey by (rule chained_mono)
  assume "childDepth es \<le> 1"
  with ch have "chained 1 (Ctx (xs ! a) a xs (Some c)) c'"
    by (rule chained_mono)
  then show "c' = Ctx (xs ! a) a xs (Some c)
                    \<or> (\<exists>p. ctx_parent c' = Some p \<and> p = Ctx (xs ! a) a xs (Some c) \<and> ctx_i p = a)"
    by (auto split: option.splits)
next
  fix f c'
  assume "Called f c' \<in> set (snd (svg E rootDef p))"
  then have "Called f c' \<in> set (snd (renderElement E ''svg'' (spread [(''xmlns'', JStr svgNamespace)] rootDef)
                       createEmptyContext \<lparr>pretty = p, indent = 0\<rparr>))"
    by (rule svg_trace)
  then have "chained (childDepth (spread [(''xmlns'', JStr svgNamespace)] rootDef)) createEmptyContext c'"
    by (rule render_contexts(2))
  then show "last (c' # ancestors c') = createEmptyContext"
    by (rule chained_last) (simp add: createEmptyContext_def)
next
  fix f c'
  show "c' \<notin> set (ancestors c')" by (rule ancestors_acyclic)
qed

section \<open>The scenarios of the tests\<close>

lemmas node_eval =
  renderNode.simps renderElement.simps removeKey_def
  getProp_def collectStep_def isSpecial_def SPECIAL_KEYS_def isElement_def SVG_ELEMENTS_def
  isAttribute_def startsWith_def evaluate_def emptyCollected_def emitElement_def padOf_def
  nlOf_def escapeAttr_def replaceAll_def dq_def
  createEmptyContext_def showInt_def showNat.simps digitChar_def testEnv_def

lemma repeat_scenario:
  "renderNode testEnv ''rect'' (JObj repeatDef) createEmptyContext \<lparr>pretty = False, indent = 0\<rparr> =
     (Inr (''<rect x='' @ [dq] @ ''0'' @ [dq] @ '' width='' @ [dq] @ ''25'' @ [dq] @ ''/>''
           @ ''<rect x='' @ [dq] @ ''30'' @ [dq] @ '' width='' @ [dq] @ ''25'' @ [dq] @ ''/>''
           @ ''<rect x='' @ [dq] @ ''60'' @ [dq] @ '' width='' @ [dq] @ ''25'' @ [dq] @ ''/>''),
      [Called 0 (Ctx (JNum 1) 0 [JNum 1, JNum 2, JNum 3] (Some createEmptyContext)),
       Called 0 (Ctx (JNum 2) 1 [JNum 1, JNum 2, JNum 3] (Some createEmptyContext)),
       Called 0 (Ctx (JNum 3) 2 [JNum 1, JNum 2, JNum 3] (Some createEmptyContext))])"
  by (simp add: node_eval repeatDef_def upt_rec [of 0])

lemma nested_scenario:
  "renderNode testEnv ''g'' (JObj nestedDef) createEmptyContext \<lparr>pretty = False, indent = 0\<rparr> =
     (Inr (''<g><rect fill='' @ [dq] @ ''red'' @ [dq] @ ''/><rect fill='' @ [dq] @ ''red'' @ [dq] @ ''/></g>''
           @ ''<g><rect fill='' @ [dq] @ ''blue'' @ [dq] @ ''/><rect fill='' @ [dq] @ ''blue'' @ [dq] @ ''/></g>''),
      [Called 1 (Ctx (nestedGrid ! 0) 0 nestedGrid (Some createEmptyContext)),
       Called 2 (Ctx (JNum 1) 0 [JNum 1, JNum 2] (Some (Ctx (nestedGrid ! 0) 0 nestedGrid (Some createEmptyContext)))),
       Called 2 (Ctx (JNum 2) 1 [JNum 1, JNum 2] (Some (Ctx (nestedGrid ! 0) 0 nestedGrid (Some createEmptyContext)))),
       Called 1 (Ctx (nestedGrid ! 1) 1 nestedGrid (Some createEmptyContext)),
       Called 2 (Ctx (JNum 3) 0 [JNum 3, JNum 4] (Some (Ctx (nestedGrid ! 1) 1 nestedGrid (Some createEmptyContext)))),
       Called 2 (Ctx (JNum 4) 1 [JNum 3, JNum 4] (Some (Ctx (nestedGrid ! 1) 1 nestedGrid (Some createEmptyContext))))])"
  by (simp add: node_eval nestedDef_def nestedGrid_def upt_rec [of 0] upt_rec [of 1] upt_rec [of "Suc 0"])


theorem each_cardinality_witness:
  "fst (renderNode testEnv ''rect'' (JObj repeatDef) createEmptyContext \<lparr>pretty = False, indent = 0\<rparr>)
     = Inr (''<rect x='' @ [dq] @ ''0'' @ [dq] @ '' width='' @ [dq] @ ''25'' @ [dq] @ ''/>''
           @ ''<rect x='' @ [dq] @ ''30'' @ [dq] @ '' width='' @ [dq] @ ''25'' @ [dq] @ ''/>''
           @ ''<rect x='' @ [dq] @ ''60'' @ [dq] @ '' width='' @ [dq] @ ''25'' @ [dq] @ ''/>'')
   \<and> (\<exists>ps. length ps = 3
         \<and> ''<rect x='' @ [dq] @ ''0'' @ [dq] @ '' width='' @ [dq] @ ''25'' @ [dq] @ ''/>''
           @ ''<rect x='' @ [dq] @ ''30'' @ [dq] @ '' width='' @ [dq] @ ''25'' @ [dq] @ ''/>''
           @ ''<rect x='' @ [dq] @ ''60'' @ [dq] @ '' width='' @ [dq] @ ''25'' @ [dq] @ ''/>'' = concat ps
         \<and> prefix ''<rect'' (ps ! 0) \<and> prefix ''<rect'' (ps ! 1) \<and> prefix ''<rect'' (ps ! 2))"
proof -
  define S where "S = ''<rect x='' @ [dq] @ ''0'' @ [dq] @ '' width='' @ [dq] @ ''25'' @ [dq] @ ''/>''
           @ ''<rect x='' @ [dq] @ ''30'' @ [dq] @ '' width='' @ [dq] @ ''25'' @ [dq] @ ''/>''
           @ ''<rect x='' @ [dq] @ ''60'' @ [dq] @ '' width='' @ [dq] @ ''25'' @ [dq] @ ''/>''"
  let ?o = "\<lparr>pretty = False, indent = 0\<rparr>"
  have p: "getProp repeatDef ''$each'' = JArr [JNum 1, JNum 2, JNum 3]"
    by (simp add: getProp_def repeatDef_def)
  have h1: "getProp repeatDef ''$each'' \<noteq> JUndefined"
    by (simp add: p)
  have h2: "evaluate testEnv (getProp repeatDef ''$each'') createEmptyContext
              = (Inr (JArr [JNum 1, JNum 2, JNum 3]), [])"
    by (simp add: p evaluate_def)
  have h3: "getProp repeatDef ''$if'' = JUndefined"
    by (simp add: getProp_def repeatDef_def)
  have r: "fst (renderNode testEnv ''rect'' (JObj repeatDef) createEmptyContext ?o) = Inr S"
    unfolding S_def by (simp add: repeat_scenario)
  have "\<forall>s. fst (renderNode testEnv ''rect'' (JObj repeatDef) createEmptyContext ?o) = Inr s \<longrightarrow>
            (\<exists>ps. length ps = length [JNum 1, JNum 2, JNum 3] \<and> s = concat ps
               \<and> (\<forall>i < length [JNum 1, JNum 2, JNum 3].
                     fst (renderElement testEnv ''rect'' (removeKey ''$each'' repeatDef)
                            (Ctx ([JNum 1, JNum 2, JNum 3] ! i) i [JNum 1, JNum 2, JNum 3]
                               (Some createEmptyContext)) ?o) = Inr (ps ! i)
                     \<and> prefix (padOf ?o @ ''<'' @ ''rect'') (ps ! i)))"
    using each_cardinality [OF h1 h2 h3, of "''rect''" ?o] by (rule conjunct2)
  with r obtain ps where ps: "length ps = length [JNum 1, JNum 2, JNum 3]" "S = concat ps"
    and pre: "\<forall>i < length [JNum 1, JNum 2, JNum 3]. prefix (padOf ?o @ ''<'' @ ''rect'') (ps ! i)"
    by blast
  from pre have "prefix ''<rect'' (ps ! 0)" "prefix ''<rect'' (ps ! 1)" "prefix ''<rect'' (ps ! 2)"
    by (simp_all add: padOf_def)
  with ps have "\<exists>ps. length ps = 3 \<and> S = concat ps
         \<and> prefix ''<rect'' (ps ! 0) \<and> prefix ''<rect'' (ps ! 1) \<and> prefix ''<rect'' (ps ! 2)"
    by (intro exI [of _ ps]) simp
  with r show ?thesis unfolding S_def by (rule conjI)
qed

theorem nested_each_contexts_witness:
  "renderNode testEnv ''g'' (JObj nestedDef) createEmptyContext \<lparr>pretty = False, indent = 0\<rparr> =
     (Inr (''<g><rect fill='' @ [dq] @ ''red'' @ [dq] @ ''/><rect fill='' @ [dq] @ ''red'' @ [dq] @ ''/></g>''
           @ ''<g><rect fill='' @ [dq] @ ''blue'' @ [dq] @ ''/><rect fill='' @ [dq] @ ''blue'' @ [dq] @ ''/></g>''),
      [Called 1 (Ctx (nestedGrid ! 0) 0 nestedGrid (Some createEmptyContext)),
       Called 2 (Ctx (JNum 1) 0 [JNum 1, JNum 2] (Some (Ctx (nestedGrid ! 0) 0 nestedGrid (Some createEmptyContext)))),
       Called 2 (Ctx (JNum 2) 1 [JNum 1, JNum 2] (Some (Ctx (nestedGrid ! 0) 0 nestedGrid (Some createEmptyContext)))),
       Called 1 (Ctx (nestedGrid ! 1) 1 nestedGrid (Some createEmptyContext)),
       Called 2 (Ctx (JNum 3) 0 [JNum 3, JNum 4] (Some (Ctx (nestedGrid ! 1) 1 nestedGrid (Some createEmptyContext)))),
       Called 2 (Ctx (JNum 4) 1 [JNum 3, JNum 4] (Some (Ctx (nestedGrid ! 1) 1 nestedGrid (Some createEmptyContext))))])
   \<and> (\<exists>p. ctx_parent (Ctx (JNum 3) 0 [JNum 3, JNum 4] (Some (Ctx (nestedGrid ! 1) 1 nestedGrid (Some createEmptyContext))))
              = Some p
          \<and> p = Ctx (nestedGrid ! 1) 1 nestedGrid (Some createEmptyContext) \<and> ctx_i p = 1)"
proof -
  let ?o = "\<lparr>pretty = False, indent = 0\<rparr>"
  let ?outer = "Ctx (nestedGrid ! 1) 1 nestedGrid (Some createEmptyContext)"
  let ?inner = "Ctx (JNum 3) 0 [JNum 3, JNum 4] (Some ?outer)"
  have p: "getProp nestedDef ''$each'' = JArr nestedGrid"
    by (simp add: getProp_def nestedDef_def)
  have h1: "getProp nestedDef ''$each'' \<noteq> JUndefined"
    by (simp add: p)
  have h2: "evaluate testEnv (getProp nestedDef ''$each'') createEmptyContext = (Inr (JArr nestedGrid), [])"
    by (simp add: p evaluate_def)
  note th = nested_each_contexts [OF h1 h2, where tagName = "''g''" and opts = ?o and rootDef = "[]" and p = False]
  have a: "1 < length nestedGrid" by (simp add: nestedGrid_def)
  have m: "Called 2 ?inner \<in> set (snd (renderElement testEnv ''g'' (removeKey ''$each'' nestedDef) ?outer ?o))"
    by (simp add: node_eval nestedDef_def nestedGrid_def upt_rec [of 0] upt_rec [of 1] upt_rec [of "Suc 0"])
  have d: "childDepth nestedDef \<le> 1"
    by (simp add: childDepth_def nestedDef_def isElement_def SVG_ELEMENTS_def getProp_def)
  have "\<forall>a f c'. a < length nestedGrid
              \<and> Called f c' \<in> set (snd (renderElement testEnv ''g'' (removeKey ''$each'' nestedDef)
                                            (Ctx (nestedGrid ! a) a nestedGrid (Some createEmptyContext)) ?o)) \<longrightarrow>
              chained (childDepth nestedDef) (Ctx (nestedGrid ! a) a nestedGrid (Some createEmptyContext)) c'
              \<and> (childDepth nestedDef \<le> 1 \<longrightarrow>
                    c' = Ctx (nestedGrid ! a) a nestedGrid (Some createEmptyContext)
                    \<or> (\<exists>p. ctx_parent c' = Some p \<and> p = Ctx (nestedGrid ! a) a nestedGrid (Some createEmptyContext) \<and> ctx_i p = a))"
    by (rule th [THEN conjunct2, THEN conjunct1])
  with a m d have "?inner = ?outer \<or> (\<exists>p. ctx_parent ?inner = Some p \<and> p = ?outer \<and> ctx_i p = 1)"
    by blast
  moreover have "?inner \<noteq> ?outer" by simp
  ultimately have "\<exists>p. ctx_parent ?inner = Some p \<and> p = ?outer \<and> ctx_i p = 1" by blast
  with nested_scenario show ?thesis by (rule conjI)
qed

section \<open>Attributes\<close>

lemma joinWith_spaces:
  "(if xs \<noteq> [] then '' '' @ joinWith '' '' xs else []) = concat (map (\<lambda>a. '' '' @ a) xs)"
  by (induction "'' ''" xs rule: joinWith.induct) simp_all

lemma emitElement_form:
  "\<exists>rest. emitElement E tagName opts col cs
            = padOf opts @ ''<'' @ tagName @ concat (map (\<lambda>a. '' '' @ a) (attributes col)) @ rest
          \<and> (prefix ''>'' rest \<or> prefix ''/>'' rest)"
proof -
  let ?a = "concat (map (\<lambda>a. '' '' @ a) (attributes col))"
  let ?h = "padOf opts @ ''<'' @ tagName @ ?a"
  have a: "(if attributes col \<noteq> [] then '' '' @ joinWith '' '' (attributes col) else []) = ?a"
    by (rule joinWith_spaces)
  have sp: "(\<lambda>a. '' '' @ a) = (\<lambda>a::string. CHR '' '' # a)" by (rule ext) simp
  consider (textual) "tagName = ''text'' \<and> textContent col \<noteq> []"
    | (filled) "\<not> (tagName = ''text'' \<and> textContent col \<noteq> [])"
        "cs \<noteq> [] \<or> textContent col \<noteq> [] \<or> truthy (rawContent col)"
    | (bare) "\<not> (tagName = ''text'' \<and> textContent col \<noteq> [])"
        "\<not> (cs \<noteq> [] \<or> textContent col \<noteq> [] \<or> truthy (rawContent col))"
    by blast
  then have "\<exists>r. emitElement E tagName opts col cs = ?h @ ''>'' @ r
             \<or> emitElement E tagName opts col cs = ?h @ ''/>'' @ r"
  proof cases
    case textual
    then have "emitElement E tagName opts col cs
        = ?h @ ''>'' @ (textContent col @ ''</'' @ tagName @ ''>'' @ nlOf opts)"
      unfolding emitElement_def Let_def a by (simp add: sp)
    then show ?thesis by blast
  next
    case filled
    then have "\<exists>r. emitElement E tagName opts col cs = ?h @ ''>'' @ r"
      unfolding emitElement_def Let_def a by (simp add: sp)
    then show ?thesis by blast
  next
    case bare
    then have "emitElement E tagName opts col cs = ?h @ ''/>'' @ nlOf opts"
      unfolding emitElement_def Let_def a by (simp add: sp)
    then show ?thesis by blast
  qed
  then obtain r where "emitElement E tagName opts col cs = ?h @ ''>'' @ r
             \<or> emitElement E tagName opts col cs = ?h @ ''/>'' @ r" by blast
  then show ?thesis
  proof
    assume "emitElement E tagName opts col cs = ?h @ ''>'' @ r"
    then show ?thesis by (intro exI [of _ "''>'' @ r"]) simp
  next
    assume "emitElement E tagName opts col cs = ?h @ ''/>'' @ r"
    then show ?thesis by (intro exI [of _ "''/>'' @ r"]) simp
  qed
qed

lemma presentAttributes_Cons:
  "presentAttributes E c (kv # es) = presentAttributes E c [kv] @ presentAttributes E c es"
  by (simp add: presentAttributes_def)

lemma collectStep_attributes:
  "collectStep E c kv acc = (Inr acc', t) \<Longrightarrow>
     attributes acc' = attributes acc @ presentAttributes E c [kv]"
  by (cases kv)
    (auto simp: collectStep_def presentAttributes_def attributeText_def omitted_def escapeAttr_def
      escape_chain_concat isAttribute_def bindRes_def split: if_splits prod.splits sum.splits)

lemma collectLoop_attributes:
  "collectLoop E c es acc = (Inr col, t) \<Longrightarrow>
     attributes col = attributes acc @ presentAttributes E c es"
proof (induction es arbitrary: acc t)
  case Nil
  then show ?case by (simp add: presentAttributes_def)
next
  case (Cons kv es)
  from Cons.prems obtain acc' t1 t2 where
    s: "collectStep E c kv acc = (Inr acc', t1)" and l: "collectLoop E c es acc' = (Inr col, t2)"
    by (auto elim: bindRes_eq_Inr)
  from Cons.IH [OF l] collectStep_attributes [OF s] show ?case
    by (simp add: presentAttributes_Cons [of E c kv es])
qed

text \<open>
  C5. In the loop of \<^verbatim>\<open>renderElement\<close>, an attribute key whose value resolves to \<open>x\<close> leaves the
  attribute list as it was when \<open>x\<close> is null, undefined or false, and for every other \<open>x\<close>
  appends the key, an equals sign and, between double quotes, what \<^verbatim>\<open>String\<close> prints for \<open>x\<close>
  with each character replaced by its entity. The opening tag of any rendered element, with
  however many entries, carries after the tag name exactly the attributes that the
  specification expects, each after one space, in the order of the entries, and then closes.
\<close>

theorem attribute_omission:
  "(isAttribute key \<and> evaluate E v c = (Inr x, t) \<longrightarrow>
      collectStep E c (key, v) acc =
        (Inr (if x = JNull \<or> x = JUndefined \<or> x = JBool False then acc
              else acc\<lparr>attributes :=
                         attributes acc
                         @ [key @ ''='' @ [dq] @ concat (map attrEntity (jsString E x)) @ [dq]]\<rparr>), t))
   \<and> (renderElement E tagName es c opts = (Inr s, t') \<and> s \<noteq> [] \<longrightarrow>
        (\<exists>rest. s = padOf opts @ ''<'' @ tagName
                      @ concat (map (\<lambda>a. '' '' @ a) (presentAttributes E c es)) @ rest
               \<and> (prefix ''>'' rest \<or> prefix ''/>'' rest)))"
proof (intro conjI impI)
  assume "isAttribute key \<and> evaluate E v c = (Inr x, t)"
  then show "collectStep E c (key, v) acc =
        (Inr (if x = JNull \<or> x = JUndefined \<or> x = JBool False then acc
              else acc\<lparr>attributes :=
                         attributes acc
                         @ [key @ ''='' @ [dq] @ concat (map attrEntity (jsString E x)) @ [dq]]\<rparr>), t)"
    by (simp add: collectStep_def isAttribute_def escapeAttr_def escape_chain_concat)
next
  assume "renderElement E tagName es c opts = (Inr s, t') \<and> s \<noteq> []"
  then obtain col cs t1 where l: "collectLoop E c es emptyCollected = (Inr col, t1)"
    and s: "s = emitElement E tagName opts col cs"
    by (auto elim: renderElement_Inr)
  from collectLoop_attributes [OF l] have "attributes col = presentAttributes E c es"
    by (simp add: emptyCollected_def)
  with emitElement_form [of E tagName opts col cs] s
  show "\<exists>rest. s = padOf opts @ ''<'' @ tagName
                      @ concat (map (\<lambda>a. '' '' @ a) (presentAttributes E c es)) @ rest
               \<and> (prefix ''>'' rest \<or> prefix ''/>'' rest)"
    by simp
qed

lemma attributeNode_keys:
  "isAttribute ''data-info''" "isAttribute ''fill''"
  by (simp_all add: isAttribute_def isElement_def SVG_ELEMENTS_def isSpecial_def SPECIAL_KEYS_def
      startsWith_def)

lemma attributeNode_present:
  "presentAttributes noFunctions createEmptyContext attributeNode =
     [''data-info='' @ [dq] @ ''a &lt; b &amp; c &gt; d &quot;q&quot;'' @ [dq],
      ''width='' @ [dq] @ ''50'' @ [dq],
      ''x='' @ [dq] @ ''0'' @ [dq],
      ''label='' @ [dq] @ [dq]]"
  by (simp add: presentAttributes_def attributeNode_def attributeText_def omitted_def attrEntity_def
      isAttribute_def isElement_def SVG_ELEMENTS_def isSpecial_def SPECIAL_KEYS_def startsWith_def
      evaluate_def dq_def showInt_def showNat.simps digitChar_def)

lemma attributeNode_render:
  "renderElement noFunctions ''rect'' attributeNode createEmptyContext \<lparr>pretty = False, indent = 0\<rparr> =
     (Inr (''<rect data-info='' @ [dq] @ ''a &lt; b &amp; c &gt; d &quot;q&quot;'' @ [dq]
           @ '' width='' @ [dq] @ ''50'' @ [dq] @ '' x='' @ [dq] @ ''0'' @ [dq]
           @ '' label='' @ [dq] @ [dq] @ ''/>''), [])"
  by (simp add: attributeNode_def noFunctions_def renderElement.simps getProp_def collectStep_def
      isSpecial_def SPECIAL_KEYS_def isElement_def SVG_ELEMENTS_def isAttribute_def startsWith_def
      evaluate_def emptyCollected_def emitElement_def padOf_def nlOf_def escapeAttr_def
      replaceAll_def dq_def showInt_def showNat.simps digitChar_def)

text \<open>
  A \<^verbatim>\<open>rect\<close> with seven attribute keys: the value of \<^verbatim>\<open>data-info\<close> is escaped, \<^verbatim>\<open>width\<close>,
  \<^verbatim>\<open>x\<close> (the number 0) and \<^verbatim>\<open>label\<close> (the empty string) are present, and \<^verbatim>\<open>fill\<close> (null),
  \<^verbatim>\<open>stroke\<close> (undefined) and \<^verbatim>\<open>hidden\<close> (false) are absent.
\<close>

theorem attribute_omission_witness:
  "collectStep noFunctions createEmptyContext
       (''data-info'', JStr (''a < b & c > d '' @ [dq] @ ''q'' @ [dq])) emptyCollected
     = (Inr (emptyCollected\<lparr>attributes :=
               [''data-info='' @ [dq] @ ''a &lt; b &amp; c &gt; d &quot;q&quot;'' @ [dq]]\<rparr>), [])
   \<and> collectStep noFunctions createEmptyContext (''fill'', JNull) emptyCollected
     = (Inr emptyCollected, [])
   \<and> renderElement noFunctions ''rect'' attributeNode createEmptyContext
            \<lparr>pretty = False, indent = 0\<rparr>
     = (Inr (''<rect data-info='' @ [dq] @ ''a &lt; b &amp; c &gt; d &quot;q&quot;'' @ [dq]
           @ '' width='' @ [dq] @ ''50'' @ [dq] @ '' x='' @ [dq] @ ''0'' @ [dq]
           @ '' label='' @ [dq] @ [dq] @ ''/>''), [])
   \<and> (\<exists>rest.
        ''<rect data-info='' @ [dq] @ ''a &lt; b &amp; c &gt; d &quot;q&quot;'' @ [dq]
           @ '' width='' @ [dq] @ ''50'' @ [dq] @ '' x='' @ [dq] @ ''0'' @ [dq]
           @ '' label='' @ [dq] @ [dq] @ ''/>''
        = ''<rect'' @ '' data-info='' @ [dq] @ ''a &lt; b &amp; c &gt; d &quot;q&quot;'' @ [dq]
               @ '' width='' @ [dq] @ ''50'' @ [dq] @ '' x='' @ [dq] @ ''0'' @ [dq]
               @ '' label='' @ [dq] @ [dq] @ rest
        \<and> (prefix ''>'' rest \<or> prefix ''/>'' rest))"
proof -
  let ?c = createEmptyContext
  let ?o = "\<lparr>pretty = False, indent = 0\<rparr>"
  let ?v = "JStr (''a < b & c > d '' @ [dq] @ ''q'' @ [dq])"
  define S where "S = ''<rect data-info='' @ [dq] @ ''a &lt; b &amp; c &gt; d &quot;q&quot;'' @ [dq]
           @ '' width='' @ [dq] @ ''50'' @ [dq] @ '' x='' @ [dq] @ ''0'' @ [dq]
           @ '' label='' @ [dq] @ [dq] @ ''/>''"
  have e: "evaluate noFunctions ?v ?c = (Inr ?v, [])"
    "evaluate noFunctions JNull ?c = (Inr JNull, [])"
    by (simp_all add: evaluate_def)
  from attribute_omission [of "''data-info''" noFunctions ?v ?c ?v "[]" emptyCollected]
    attributeNode_keys(1) e(1)
  have "collectStep noFunctions ?c (''data-info'', ?v) emptyCollected =
        (Inr (if ?v = JNull \<or> ?v = JUndefined \<or> ?v = JBool False then emptyCollected
              else emptyCollected\<lparr>attributes :=
                         attributes emptyCollected
                         @ [''data-info'' @ ''='' @ [dq] @ concat (map attrEntity (jsString noFunctions ?v)) @ [dq]]\<rparr>), [])"
    by blast
  then have 1: "collectStep noFunctions ?c (''data-info'', ?v) emptyCollected
     = (Inr (emptyCollected\<lparr>attributes :=
               [''data-info='' @ [dq] @ ''a &lt; b &amp; c &gt; d &quot;q&quot;'' @ [dq]]\<rparr>), [])"
    by (simp add: attrEntity_def dq_def emptyCollected_def)
  from attribute_omission [of "''fill''" noFunctions JNull ?c JNull "[]" emptyCollected]
    attributeNode_keys(2) e(2)
  have 2: "collectStep noFunctions ?c (''fill'', JNull) emptyCollected = (Inr emptyCollected, [])"
    by simp
  have r: "renderElement noFunctions ''rect'' attributeNode ?c ?o = (Inr S, [])"
    unfolding S_def by (rule attributeNode_render)
  have ne: "S \<noteq> []" by (simp add: S_def)
  from attribute_omission [of _ _ _ ?c _ _ _ "''rect''" attributeNode ?o S "[]"] r ne
  obtain rest where "S = padOf ?o @ ''<'' @ ''rect''
                      @ concat (map (\<lambda>a. '' '' @ a) (presentAttributes noFunctions ?c attributeNode)) @ rest"
    and p: "prefix ''>'' rest \<or> prefix ''/>'' rest"
    by blast
  then have "S = ''<rect'' @ '' data-info='' @ [dq] @ ''a &lt; b &amp; c &gt; d &quot;q&quot;'' @ [dq]
               @ '' width='' @ [dq] @ ''50'' @ [dq] @ '' x='' @ [dq] @ ''0'' @ [dq]
               @ '' label='' @ [dq] @ [dq] @ rest"
    by (simp add: attributeNode_present padOf_def)
  with p have 3: "\<exists>rest. S = ''<rect'' @ '' data-info='' @ [dq] @ ''a &lt; b &amp; c &gt; d &quot;q&quot;'' @ [dq]
               @ '' width='' @ [dq] @ ''50'' @ [dq] @ '' x='' @ [dq] @ ''0'' @ [dq]
               @ '' label='' @ [dq] @ [dq] @ rest
        \<and> (prefix ''>'' rest \<or> prefix ''/>'' rest)"
    by blast
  from 1 2 r 3 show ?thesis unfolding S_def by (intro conjI)
qed

section \<open>Rounding to the nearest double\<close>

lemma roundHalfEven_int [simp]: "roundHalfEven (of_int n) = n"
  by (simp add: roundHalfEven_def)

lemma roundHalfEven_mono: "x \<le> y \<Longrightarrow> roundHalfEven x \<le> roundHalfEven y"
proof -
  assume xy: "x \<le> y"
  then have f: "\<lfloor>x\<rfloor> \<le> \<lfloor>y\<rfloor>" by (rule floor_mono)
  show ?thesis
  proof (cases "\<lfloor>x\<rfloor> = \<lfloor>y\<rfloor>")
    case True
    with xy show ?thesis by (auto simp: roundHalfEven_def Let_def)
  next
    case False
    with f have "\<lfloor>x\<rfloor> + 1 \<le> \<lfloor>y\<rfloor>" by simp
    moreover have "roundHalfEven x \<le> \<lfloor>x\<rfloor> + 1" by (simp add: roundHalfEven_def Let_def)
    moreover have "\<lfloor>y\<rfloor> \<le> roundHalfEven y" by (simp add: roundHalfEven_def Let_def)
    ultimately show ?thesis by linarith
  qed
qed

lemma roundHalfEven_minus: "roundHalfEven (- y) = - roundHalfEven y"
proof (cases "y \<in> \<int>")
  case True
  then obtain n where "y = of_int n" by (auto elim: Ints_cases)
  then have "- y = of_int (- n)" by simp
  then show ?thesis using \<open>y = of_int n\<close> by (simp only: roundHalfEven_int)
next
  case False
  then have ne: "y \<noteq> of_int \<lfloor>y\<rfloor>"
    by (metis Ints_of_int)
  then have fl: "\<lfloor>- y\<rfloor> = - \<lfloor>y\<rfloor> - 1"
    by (simp add: floor_minus ceiling_altdef)
  from ne have d: "0 < y - of_int \<lfloor>y\<rfloor>" "y - of_int \<lfloor>y\<rfloor> < 1"
    by linarith+
  show ?thesis
    unfolding roundHalfEven_def Let_def fl using d by auto
qed

lemma binade:
  assumes "y \<noteq> 0"
  shows "2 powr of_int \<lfloor>log 2 \<bar>y\<bar>\<rfloor> \<le> \<bar>y\<bar>" and "\<bar>y\<bar> < 2 powr of_int (\<lfloor>log 2 \<bar>y\<bar>\<rfloor> + 1)"
  using floor_log_eq_powr_iff [of "\<bar>y\<bar>" 2 "\<lfloor>log 2 \<bar>y\<bar>\<rfloor>"] assms by simp_all

lemma floor_log2_unique:
  assumes "2 powr of_int k \<le> \<bar>y\<bar>" "\<bar>y\<bar> < 2 powr of_int (k + 1)"
  shows "\<lfloor>log 2 \<bar>y\<bar>\<rfloor> = k"
proof -
  from assms(1) have "0 < \<bar>y\<bar>" by (smt (verit) powr_gt_zero)
  then show ?thesis
    using floor_log_eq_powr_iff [of "\<bar>y\<bar>" 2 k] assms by simp
qed

lemma ulpExponent_ge: "- 1074 \<le> ulpExponent y"
  by (simp add: ulpExponent_def)

lemma ulpExponent_minus [simp]: "ulpExponent (- y) = ulpExponent y"
  by (simp add: ulpExponent_def)

lemma ulpExponent_mono:
  assumes "0 < \<bar>x\<bar>" "\<bar>x\<bar> \<le> \<bar>y\<bar>"
  shows "ulpExponent x \<le> ulpExponent y"
proof -
  from assms have "log 2 \<bar>x\<bar> \<le> log 2 \<bar>y\<bar>" by simp
  then have "\<lfloor>log 2 \<bar>x\<bar>\<rfloor> \<le> \<lfloor>log 2 \<bar>y\<bar>\<rfloor>" by (rule floor_mono)
  then show ?thesis by (simp add: ulpExponent_def)
qed

lemma below_top:
  assumes "y \<noteq> 0"
  shows "\<bar>y\<bar> < 2 powr of_int (ulpExponent y + 53)"
proof -
  have "\<lfloor>log 2 \<bar>y\<bar>\<rfloor> + 1 \<le> ulpExponent y + 53" by (simp add: ulpExponent_def)
  then have "(2::real) powr of_int (\<lfloor>log 2 \<bar>y\<bar>\<rfloor> + 1) \<le> 2 powr of_int (ulpExponent y + 53)"
    by (simp del: of_int_add)
  with binade(2) [OF assms] show ?thesis by linarith
qed

lemma above_bottom:
  assumes "y \<noteq> 0" "- 1022 \<le> \<lfloor>log 2 \<bar>y\<bar>\<rfloor>"
  shows "2 powr of_int (ulpExponent y + 52) \<le> \<bar>y\<bar>"
proof -
  from assms(2) have "ulpExponent y + 52 = \<lfloor>log 2 \<bar>y\<bar>\<rfloor>" by (simp add: ulpExponent_def)
  with binade(1) [OF assms(1)] show ?thesis by simp
qed

lemma quotient_bounds:
  assumes "y \<noteq> 0"
  shows "- (2 ^ 53) < y / 2 powr of_int (ulpExponent y)" and "y / 2 powr of_int (ulpExponent y) < 2 ^ 53"
proof -
  define p :: real where "p = 2 powr of_int (ulpExponent y)"
  have p: "0 < p" by (simp add: p_def)
  have "\<bar>y\<bar> < p * 2 powr 53"
    using below_top [OF assms] by (simp add: powr_add p_def)
  then have "\<bar>y\<bar> < p * 2 ^ 53" by simp
  then have "y < 2 ^ 53 * p" "- (2 ^ 53) * p < y" by (simp_all add: abs_less_iff mult.commute)
  with p have "y / p < 2 ^ 53" "- (2 ^ 53) < y / p"
    by (simp_all add: divide_less_eq less_divide_eq)
  then show "- (2 ^ 53) < y / 2 powr of_int (ulpExponent y)" and "y / 2 powr of_int (ulpExponent y) < 2 ^ 53"
    by (simp_all add: p_def)
qed

lemma roundNearest_minus: "roundNearest (- y) = - roundNearest y"
  by (simp add: roundNearest_def roundHalfEven_minus)

lemma roundNearest_fixed:
  assumes y: "y = of_int m * 2 powr of_int k" and m: "\<bar>m\<bar> < 2 ^ 53" and k: "- 1074 \<le> k"
  shows "roundNearest y = y"
proof (cases "y = 0")
  case True
  then show ?thesis by (simp add: roundNearest_def)
next
  case False
  define u where "u = ulpExponent y"
  have "\<bar>y\<bar> = of_int \<bar>m\<bar> * 2 powr of_int k" by (simp add: y abs_mult)
  also have "\<dots> < 2 ^ 53 * 2 powr of_int k"
    using m by (intro mult_strict_right_mono) (simp_all add: of_int_less_iff [where 'a = real, symmetric] del: of_int_less_iff)
  also have "\<dots> = 2 powr of_int (k + 53)" by (simp add: powr_add)
  finally have up: "\<bar>y\<bar> < 2 powr of_int (k + 53)" .
  from binade(1) [OF False] up have "(2::real) powr of_int \<lfloor>log 2 \<bar>y\<bar>\<rfloor> < 2 powr of_int (k + 53)"
    by linarith
  then have "\<lfloor>log 2 \<bar>y\<bar>\<rfloor> < k + 53" by (simp del: of_int_add)
  with k have uk: "u \<le> k" by (simp add: ulpExponent_def u_def)
  then obtain n where n: "k = u + int n" by (metis zle_iff_zadd)
  have "2 powr of_int k = 2 powr of_int u * (2::real) ^ n"
    unfolding n by (simp add: powr_add powr_realpow)
  then have yq: "y = of_int (m * 2 ^ n) * 2 powr of_int u"
    by (simp add: y)
  then have q: "y / 2 powr of_int u = of_int (m * 2 ^ n)"
    by simp
  have "roundNearest y = of_int (roundHalfEven (y / 2 powr of_int u)) * 2 powr of_int u"
    using False by (simp add: roundNearest_def u_def)
  also have "\<dots> = of_int (m * 2 ^ n) * 2 powr of_int u"
    by (simp only: q roundHalfEven_int)
  also have "\<dots> = y" using yq by simp
  finally show ?thesis .
qed

lemma roundHalfEven_ge: "of_int a \<le> y \<Longrightarrow> a \<le> roundHalfEven y"
  using roundHalfEven_mono [of "of_int a" y] by simp

lemma roundHalfEven_le: "y \<le> of_int b \<Longrightarrow> roundHalfEven y \<le> b"
  using roundHalfEven_mono [of y "of_int b"] by simp

lemma roundNearest_form:
  assumes "y \<noteq> 0"
  obtains M where "roundNearest y = of_int M * 2 powr of_int (ulpExponent y)" "\<bar>M\<bar> \<le> 2 ^ 53"
proof -
  let ?q = "y / 2 powr of_int (ulpExponent y)"
  from quotient_bounds [OF assms] have "of_int (- (2 ^ 53)) \<le> ?q" "?q \<le> of_int (2 ^ 53)"
    by simp_all
  then have "- (2 ^ 53) \<le> roundHalfEven ?q" "roundHalfEven ?q \<le> 2 ^ 53"
    by (simp_all only: roundHalfEven_ge roundHalfEven_le)
  then have "\<bar>roundHalfEven ?q\<bar> \<le> 2 ^ 53" by simp
  moreover have "roundNearest y = of_int (roundHalfEven ?q) * 2 powr of_int (ulpExponent y)"
    using assms by (simp add: roundNearest_def)
  ultimately show ?thesis using that by blast
qed

lemma roundNearest_idem: "roundNearest (roundNearest y) = roundNearest y"
proof (cases "y = 0")
  case True
  then show ?thesis by (simp add: roundNearest_def)
next
  case False
  then obtain M where r: "roundNearest y = of_int M * 2 powr of_int (ulpExponent y)"
    and M: "\<bar>M\<bar> \<le> 2 ^ 53"
    by (rule roundNearest_form)
  show ?thesis
  proof (cases "\<bar>M\<bar> < 2 ^ 53")
    case True
    from r True ulpExponent_ge show ?thesis by (rule roundNearest_fixed)
  next
    case False
    with M have "M = 2 ^ 53 \<or> M = - (2 ^ 53)" by linarith
    then obtain s :: int where s: "\<bar>s\<bar> = 1" "M = s * 2 ^ 53" by auto
    have "roundNearest y = of_int s * (2 ^ 53 * 2 powr of_int (ulpExponent y))"
      by (simp add: r s(2))
    also have "2 ^ 53 * 2 powr of_int (ulpExponent y) = (2::real) powr of_int (ulpExponent y + 53)"
      by (simp add: powr_add)
    finally have "roundNearest y = of_int s * 2 powr of_int (ulpExponent y + 53)" .
    moreover have "\<bar>s\<bar> < 2 ^ 53" using s(1) by simp
    moreover have "- 1074 \<le> ulpExponent y + 53" using ulpExponent_ge [of y] by simp
    ultimately show ?thesis by (rule roundNearest_fixed)
  qed
qed

lemma roundNearest_nonneg: "0 \<le> y \<Longrightarrow> 0 \<le> roundNearest y"
proof -
  assume "0 \<le> y"
  then have "of_int 0 \<le> y / 2 powr of_int (ulpExponent y)" by simp
  then have "0 \<le> roundHalfEven (y / 2 powr of_int (ulpExponent y))"
    by (rule roundHalfEven_ge)
  then show ?thesis by (simp add: roundNearest_def)
qed

lemma roundNearest_upper:
  assumes "0 < y"
  shows "roundNearest y \<le> 2 powr of_int (ulpExponent y + 53)"
proof -
  let ?q = "y / 2 powr of_int (ulpExponent y)"
  from assms have ne: "y \<noteq> 0" by simp
  from quotient_bounds(2) [OF ne] have "?q \<le> of_int (2 ^ 53)" by simp
  then have "roundHalfEven ?q \<le> 2 ^ 53" by (rule roundHalfEven_le)
  then have "real_of_int (roundHalfEven ?q) \<le> real_of_int (2 ^ 53)" by (simp only: of_int_le_iff)
  then have "real_of_int (roundHalfEven ?q) \<le> 2 ^ 53" by simp
  then have "real_of_int (roundHalfEven ?q) * 2 powr of_int (ulpExponent y) \<le> 2 ^ 53 * 2 powr of_int (ulpExponent y)"
    by (intro mult_right_mono) simp_all
  also have "\<dots> = 2 powr of_int (ulpExponent y + 53)" by (simp add: powr_add)
  finally show ?thesis using ne by (simp add: roundNearest_def)
qed

lemma roundNearest_lower:
  assumes "0 < y" "- 1022 \<le> \<lfloor>log 2 \<bar>y\<bar>\<rfloor>"
  shows "2 powr of_int (ulpExponent y + 52) \<le> roundNearest y"
proof -
  let ?q = "y / 2 powr of_int (ulpExponent y)"
  from assms have ne: "y \<noteq> 0" by simp
  from above_bottom [OF ne assms(2)] assms(1)
  have "2 powr of_int (ulpExponent y) * 2 powr 52 \<le> y" by (simp add: powr_add)
  then have "2 powr 52 \<le> ?q" by (simp add: le_divide_eq mult.commute)
  then have "of_int (2 ^ 52) \<le> ?q" by simp
  then have "2 ^ 52 \<le> roundHalfEven ?q" by (rule roundHalfEven_ge)
  then have "real_of_int (2 ^ 52) \<le> of_int (roundHalfEven ?q)" by (simp only: of_int_le_iff)
  then have "(2::real) ^ 52 \<le> of_int (roundHalfEven ?q)" by simp
  then have "2 ^ 52 * 2 powr of_int (ulpExponent y) \<le> real_of_int (roundHalfEven ?q) * 2 powr of_int (ulpExponent y)"
    by (intro mult_right_mono) simp_all
  moreover have "(2::real) powr of_int (ulpExponent y + 52) = 2 ^ 52 * 2 powr of_int (ulpExponent y)"
    by (simp add: powr_add)
  moreover have "roundNearest y = real_of_int (roundHalfEven ?q) * 2 powr of_int (ulpExponent y)"
    using ne by (simp add: roundNearest_def)
  ultimately show ?thesis by (simp only:)
qed

lemma roundNearest_mono_pos:
  assumes "0 < x" "x \<le> y"
  shows "roundNearest x \<le> roundNearest y"
proof -
  from assms have y: "0 < y" by simp
  from assms have ule: "ulpExponent x \<le> ulpExponent y"
    by (intro ulpExponent_mono) simp_all
  show ?thesis
  proof (cases "ulpExponent x = ulpExponent y")
    case True
    from assms have "x / 2 powr of_int (ulpExponent y) \<le> y / 2 powr of_int (ulpExponent y)"
      by (simp add: divide_right_mono)
    then have "roundHalfEven (x / 2 powr of_int (ulpExponent y)) \<le> roundHalfEven (y / 2 powr of_int (ulpExponent y))"
      by (rule roundHalfEven_mono)
    then have "real_of_int (roundHalfEven (x / 2 powr of_int (ulpExponent y))) * 2 powr of_int (ulpExponent y)
               \<le> real_of_int (roundHalfEven (y / 2 powr of_int (ulpExponent y))) * 2 powr of_int (ulpExponent y)"
      by (intro mult_right_mono) simp_all
    with assms(1) y True show ?thesis by (simp add: roundNearest_def)
  next
    case False
    with ule have lt: "ulpExponent x + 1 \<le> ulpExponent y" by simp
    then have "- 1022 \<le> \<lfloor>log 2 \<bar>y\<bar>\<rfloor>"
      unfolding ulpExponent_def by linarith
    from roundNearest_lower [OF y this] have "2 powr of_int (ulpExponent y + 52) \<le> roundNearest y" .
    moreover have "(2::real) powr of_int (ulpExponent x + 53) \<le> 2 powr of_int (ulpExponent y + 52)"
      using lt by (simp del: of_int_add)
    moreover note roundNearest_upper [OF assms(1)]
    ultimately show ?thesis by linarith
  qed
qed

lemma roundNearest_mono:
  assumes "x \<le> y"
  shows "roundNearest x \<le> roundNearest y"
proof -
  consider "0 < x" | "x \<le> 0" "0 \<le> y" | "y < 0" using assms by linarith
  then show ?thesis
  proof cases
    case 1
    then show ?thesis using assms by (rule roundNearest_mono_pos)
  next
    case 2
    from 2(1) have "0 \<le> roundNearest (- x)" by (intro roundNearest_nonneg) simp
    then have "roundNearest x \<le> 0" by (simp add: roundNearest_minus)
    with roundNearest_nonneg [OF 2(2)] show ?thesis by linarith
  next
    case 3
    then have "0 < - y" "- y \<le> - x" using assms by simp_all
    then have "roundNearest (- y) \<le> roundNearest (- x)" by (rule roundNearest_mono_pos)
    then show ?thesis by (simp add: roundNearest_minus)
  qed
qed

section \<open>Arithmetic on doubles\<close>

lemma roundNearest_0 [simp]: "roundNearest 0 = 0"
  by (simp add: roundNearest_def)

lemma rnd_0 [simp]: "rnd 0 = Fin 0"
  by (simp add: rnd_def)

lemma rnd_valid: "valid (rnd y)"
  by (auto simp: rnd_def Let_def roundNearest_idem)

lemma rnd_fixed: "valid (Fin x) \<Longrightarrow> rnd x = Fin x"
  by (auto simp: rnd_def Let_def)

lemma rnd_representable:
  assumes "y = of_int m * 2 powr of_int k" "\<bar>m\<bar> < 2 ^ 53" "- 1074 \<le> k" "\<bar>y\<bar> < 2 ^ 1024"
  shows "rnd y = Fin y"
  using roundNearest_fixed [OF assms(1,2,3)] assms(4) by (auto simp: rnd_def Let_def)

lemma rnd_of_int:
  assumes "\<bar>n\<bar> < 2 ^ 53"
  shows "rnd (of_int n) = Fin (of_int n)"
proof (rule rnd_representable [where m = n and k = 0])
  show "real_of_int n = of_int n * 2 powr of_int 0" by simp
  show "\<bar>n\<bar> < 2 ^ 53" by fact
  show "(- 1074 :: int) \<le> 0" by simp
  from assms have "\<bar>real_of_int n\<bar> < real_of_int (2 ^ 53)"
    by (simp only: of_int_abs [symmetric] of_int_less_iff)
  also have "\<dots> < 2 ^ 1024" by simp
  finally show "\<bar>real_of_int n\<bar> < 2 ^ 1024" .
qed

lemma rnd_numeral [simp]:
  "numeral k < (2 ^ 53 :: int) \<Longrightarrow> rnd (numeral k) = Fin (numeral k)"
  "numeral k < (2 ^ 53 :: int) \<Longrightarrow> rnd (- numeral k) = Fin (- numeral k)"
  using rnd_of_int [of "numeral k"] rnd_of_int [of "- numeral k"] by simp_all

lemma rnd_1 [simp]: "rnd 1 = Fin 1"
  using rnd_of_int [of 1] by simp

lemma valid_of_int: "\<bar>n\<bar> < 2 ^ 53 \<Longrightarrow> valid (Fin (of_int n))"
  using rnd_valid [of "of_int n"] by (simp add: rnd_of_int)

lemma valid_representable:
  assumes "y = of_int m * 2 powr of_int k" "\<bar>m\<bar> < 2 ^ 53" "- 1074 \<le> k" "\<bar>y\<bar> < 2 ^ 1024"
  shows "valid (Fin y)"
  using rnd_valid [of y] rnd_representable [OF assms] by simp

lemma rnd_overflow [simp]: "rnd (2 ^ 1024) = PInf" "rnd (- (2 ^ 1024)) = NInf"
proof -
  have "roundNearest (2 ^ 1024) = 2 ^ 1024"
    by (rule roundNearest_fixed [where m = 1 and k = 1024]) simp_all
  then have "roundNearest (- (2 ^ 1024)) = - (2 ^ 1024)"
    by (simp add: roundNearest_minus)
  with \<open>roundNearest (2 ^ 1024) = 2 ^ 1024\<close>
  show "rnd (2 ^ 1024) = PInf" "rnd (- (2 ^ 1024)) = NInf"
    by (simp_all add: rnd_def)
qed

lemma ddiv_one: "valid x \<Longrightarrow> ddiv x (Fin 1) = x"
  by (cases x) (simp_all add: rnd_fixed)

lemma dsub_self: "d \<noteq> NaN \<Longrightarrow> orOne (dsub d d) = Fin 1"
  by (cases d) (simp_all add: dsub_def orOne_def)

lemma valid_dsigned [simp]: "valid (dsigned b)"
  by (cases b) simp_all

lemma dadd_valid: "valid (dadd a b)"
  by (cases a; cases b) (simp_all add: rnd_valid)

lemma dsub_valid: "valid (dsub a b)"
  by (simp add: dsub_def dadd_valid)

lemma dmul_valid: "valid (dmul a b)"
  by (cases a; cases b) (simp_all add: rnd_valid)

lemma dsub_finite: "dsub (Fin a) (Fin b) \<noteq> NaN"
  by (simp add: dsub_def rnd_def Let_def)

section \<open>Linear scale\<close>

lemma scale_formula:
  "d \<noteq> NaN \<Longrightarrow> createLinearScale (d, d) (r0, r1) v = dadd r0 (dmul (dsub v d) (dsub r1 r0))"
  by (simp add: dsub_self ddiv_one dsub_valid)



lemma scale_overflow_example:
  "createLinearScale (Fin (2 ^ 1023), Fin (2 ^ 1023)) (Fin 0, Fin 0) (Fin (- (2 ^ 1023))) = NaN"
  "createLinearScale (Fin (2 ^ 1023), Fin (2 ^ 1023)) (Fin 0, Fin 0) (Fin 0) = Fin 0"
proof -
  have e: "- (2 ^ 1023) + - (2 ^ 1023) = - (2 ^ 1024 :: real)" by simp
  have a: "dsub (Fin (- (2 ^ 1023))) (Fin (2 ^ 1023)) = NInf"
    unfolding dsub_def dneg.simps dadd.simps e by (rule rnd_overflow)
  have "rnd (- (2 ^ 1023)) = Fin (- (2 ^ 1023))"
    by (rule rnd_representable [where m = "- 1" and k = 1023]) simp_all
  then have b: "dsub (Fin 0) (Fin (2 ^ 1023)) = Fin (- (2 ^ 1023))"
    unfolding dsub_def dneg.simps dadd.simps by simp
  have z: "dsub (Fin 0) (Fin 0) = Fin 0" by (simp add: dsub_def)
  have ne: "Fin (2 ^ 1023) \<noteq> NaN" by (rule dbl.distinct)
  show "createLinearScale (Fin (2 ^ 1023), Fin (2 ^ 1023)) (Fin 0, Fin 0) (Fin (- (2 ^ 1023))) = NaN"
    unfolding scale_formula [OF ne] a z by simp
  show "createLinearScale (Fin (2 ^ 1023), Fin (2 ^ 1023)) (Fin 0, Fin 0) (Fin 0) = Fin 0"
    unfolding scale_formula [OF ne] b z by simp
qed


section \<open>Ticks\<close>

lemma rnd_not_NaN [simp]: "rnd y \<noteq> NaN"
  by (simp add: rnd_def Let_def)

lemma dle_NInf [simp]: "b \<noteq> NaN \<Longrightarrow> dle NInf b"
  by (cases b) simp_all

lemma dle_PInf [simp]: "a \<noteq> NaN \<Longrightarrow> dle a PInf"
  by (cases a) simp_all

lemma dle_refl: "a \<noteq> NaN \<Longrightarrow> dle a a"
  by (cases a) simp_all

lemma dle_trans: "dle a b \<Longrightarrow> dle b c \<Longrightarrow> dle a c"
  by (cases a; cases b; cases c) simp_all

lemma dle_not_NaN: "dle a b \<Longrightarrow> a \<noteq> NaN \<and> b \<noteq> NaN"
  by (cases a; cases b) simp_all

lemma rnd_mono: "x \<le> y \<Longrightarrow> dle (rnd x) (rnd y)"
  using roundNearest_mono [of x y] by (auto simp: rnd_def Let_def)

lemma dmul_mono: "0 < c \<Longrightarrow> dle a b \<Longrightarrow> dle (dmul a (Fin c)) (dmul b (Fin c))"
  by (cases a; cases b) (simp_all add: rnd_mono)

lemma ddiv_mono: "0 < c \<Longrightarrow> dle a b \<Longrightarrow> dle (ddiv a (Fin c)) (ddiv b (Fin c))"
  by (cases a; cases b) (simp_all add: rnd_mono divide_right_mono)

lemma mathRound_mono: "dle a b \<Longrightarrow> dle (mathRound a) (mathRound b)"
  by (cases a; cases b) (simp_all add: floor_mono)

lemma roundTick_mono: "dle v w \<Longrightarrow> dle (roundTick v) (roundTick w)"
  unfolding roundTick_def by (intro ddiv_mono mathRound_mono dmul_mono) simp_all

lemma roundTick_not_NaN: "v \<noteq> NaN \<Longrightarrow> roundTick v \<noteq> NaN"
  using roundTick_mono [OF dle_refl, of v] dle_not_NaN by blast

lemma dadd_increases:
  assumes "valid v" "dlt (Fin 0) step" "v \<noteq> NaN"
  shows "dadd v step = NaN \<or> dle v (dadd v step)"
proof (cases v)
  case (Fin x)
  show ?thesis
  proof (cases step)
    case (Fin s)
    with assms \<open>v = Fin x\<close> have "rnd x = Fin x" "x \<le> x + s" by (simp_all add: rnd_fixed)
    with rnd_mono [of x "x + s"] show ?thesis using Fin \<open>v = Fin x\<close> by simp
  qed (use assms Fin in simp_all)
qed (use assms in \<open>cases step; simp\<close>)+

lemma dadd_decreases:
  assumes "valid v" "dle step (Fin 0)" "v \<noteq> NaN" "v \<noteq> PInf"
  shows "dle (dadd v step) v"
proof (cases v)
  case (Fin x)
  show ?thesis
  proof (cases step)
    case (Fin s)
    with assms \<open>v = Fin x\<close> have "rnd x = Fin x" "x + s \<le> x" by (simp_all add: rnd_fixed)
    with rnd_mono [of "x + s" x] show ?thesis using Fin \<open>v = Fin x\<close> by simp
  qed (use assms Fin in simp_all)
qed (use assms in \<open>cases step; simp\<close>)+

lemma ticksLoop_stop:
  "\<not> dle v (dadd mx (dmul step (Fin (1 / 2)))) \<Longrightarrow> ticksLoop v mx step acc = Some acc"
  by (subst ticksLoop.simps) simp

lemma ticksLoop_go:
  "dle v (dadd mx (dmul step (Fin (1 / 2)))) \<Longrightarrow>
     ticksLoop v mx step acc = ticksLoop (dadd v step) mx step (acc @ [roundTick v])"
  by (subst ticksLoop.simps) simp

lemma ticksLoop_diverges:
  assumes inv: "\<And>w. I w \<Longrightarrow> dle w (dadd mx (dmul step (Fin (1 / 2)))) \<and> I (dadd w step)"
    and v: "I v"
  shows "ticksLoop v mx step acc = None"
proof (cases "ticksLoop v mx step acc")
  case (Some r)
  have "I v \<longrightarrow> step = step \<longrightarrow> mx = mx \<longrightarrow> False"
  proof (rule ticksLoop.raw_induct
      [where P = "\<lambda>v' mx' step' acc' r'. I v' \<longrightarrow> step' = step \<longrightarrow> mx' = mx \<longrightarrow> False", OF _ Some])
    fix f v' mx' step' acc' r'
    assume IH: "\<And>v mx' step' acc r. f v mx' step' acc = Some r \<Longrightarrow> I v \<longrightarrow> step' = step \<longrightarrow> mx' = mx \<longrightarrow> False"
      and eq: "(if dle v' (dadd mx' (dmul step' (Fin (1 / 2))))
                then f (dadd v' step') mx' step' (acc' @ [roundTick v'])
                else Some acc') = Some r'"
    show "I v' \<longrightarrow> step' = step \<longrightarrow> mx' = mx \<longrightarrow> False"
    proof (intro impI)
      assume i: "I v'" and s: "step' = step" and m: "mx' = mx"
      from inv [OF i] eq s m have "f (dadd v' step) mx step (acc' @ [roundTick v']) = Some r'"
        by simp
      from IH [of "dadd v' step" mx step, OF this] inv [OF i] show False by simp
    qed
  qed
  with v show ?thesis by simp
qed simp

lemma ticksLoop_sorted:
  assumes "ticksLoop v mx step acc = Some r" "valid v" "dlt (Fin 0) step"
  shows "\<exists>new. r = acc @ new \<and> sorted_wrt dle new \<and> (\<forall>x \<in> set new. dle (roundTick v) x)
           \<and> (if dle v (dadd mx (dmul step (Fin (1 / 2)))) then new \<noteq> [] \<and> hd new = roundTick v else new = [])"
proof -
  define Q where "Q = (\<lambda>v mx acc r. \<exists>new. r = acc @ new \<and> sorted_wrt dle new \<and> (\<forall>x \<in> set new. dle (roundTick v) x)
           \<and> (if dle v (dadd mx (dmul step (Fin (1 / 2)))) then new \<noteq> [] \<and> hd new = roundTick v else new = []))"
  have "valid v \<longrightarrow> step = step \<longrightarrow> Q v mx acc r"
  proof (rule ticksLoop.raw_induct
      [where P = "\<lambda>v' mx' step' acc' r'. valid v' \<longrightarrow> step' = step \<longrightarrow> Q v' mx' acc' r'", OF _ assms(1)])
    fix f v' mx' step' acc' r'
    assume IH: "\<And>v mx' step' acc r. f v mx' step' acc = Some r \<Longrightarrow> valid v \<longrightarrow> step' = step \<longrightarrow> Q v mx' acc r"
      and eq: "(if dle v' (dadd mx' (dmul step' (Fin (1 / 2))))
                then f (dadd v' step') mx' step' (acc' @ [roundTick v'])
                else Some acc') = Some r'"
    show "valid v' \<longrightarrow> step' = step \<longrightarrow> Q v' mx' acc' r'"
    proof (intro impI)
      assume val: "valid v'" and s: "step' = step"
      let ?b = "dadd mx' (dmul step (Fin (1 / 2)))"
      show "Q v' mx' acc' r'"
      proof (cases "dle v' ?b")
        case False
        with eq s show ?thesis by (simp add: Q_def)
      next
        case True
        then have nn: "v' \<noteq> NaN" using dle_not_NaN by blast
        from True eq s have "f (dadd v' step) mx' step (acc' @ [roundTick v']) = Some r'" by simp
        from IH [OF this] dadd_valid have "Q (dadd v' step) mx' (acc' @ [roundTick v']) r'" by simp
        then obtain new where n: "r' = (acc' @ [roundTick v']) @ new" "sorted_wrt dle new"
          "\<forall>x \<in> set new. dle (roundTick (dadd v' step)) x"
          "if dle (dadd v' step) ?b then new \<noteq> [] \<and> hd new = roundTick (dadd v' step) else new = []"
          unfolding Q_def by blast
        have le: "\<forall>x \<in> set new. dle (roundTick v') x"
        proof (cases "dadd v' step = NaN")
          case True
          then have "\<not> dle (dadd v' step) ?b" by simp
          with n(4) show ?thesis by simp
        next
          case False
          with dadd_increases [OF val assms(3) nn] have "dle v' (dadd v' step)" by simp
          then have "dle (roundTick v') (roundTick (dadd v' step))" by (rule roundTick_mono)
          with n(3) show ?thesis using dle_trans by blast
        qed
        have "dle (roundTick v') (roundTick v')"
          using nn by (intro dle_refl roundTick_not_NaN)
        with le n(1,2) True show ?thesis
          unfolding Q_def by (intro exI [of _ "roundTick v' # new"]) simp
      qed
    qed
  qed
  with assms(2) show ?thesis by (simp add: Q_def)
qed

lemma half_int: "\<bar>s\<bar> < 2 ^ 53 \<Longrightarrow> rnd (of_int s * (1 / 2)) = Fin (of_int s / 2)"
proof -
  assume s: "\<bar>s\<bar> < 2 ^ 53"
  have "rnd (of_int s / 2) = Fin (of_int s / 2)"
  proof (rule rnd_representable [where m = s and k = "- 1"])
    show "real_of_int s / 2 = of_int s * 2 powr of_int (- 1)" by (simp add: powr_minus_divide)
    show "\<bar>s\<bar> < 2 ^ 53" by fact
    show "(- 1074 :: int) \<le> - 1" by simp
    from s have "\<bar>real_of_int s\<bar> < real_of_int (2 ^ 53)"
      by (simp only: of_int_abs [symmetric] of_int_less_iff)
    then show "\<bar>real_of_int s / 2\<bar> < 2 ^ 1024" by simp
  qed
  then show ?thesis by simp
qed

lemma half_int_sum:
  assumes "\<bar>n\<bar> < 2 ^ 53"
  shows "rnd (of_int n / 2) = Fin (of_int n / 2)"
  using half_int [OF assms] by simp

lemma bound_int:
  assumes "\<bar>b\<bar> \<le> 2 ^ 51" "0 \<le> s" "s \<le> 2 ^ 51"
  shows "dadd (Fin (of_int b)) (dmul (Fin (of_int s)) (Fin (1 / 2))) = Fin (of_int b + of_int s / 2)"
proof -
  from assms have "\<bar>s\<bar> < 2 ^ 53" by simp
  then have h: "dmul (Fin (of_int s)) (Fin (1 / 2)) = Fin (of_int s / 2)"
    using half_int [of s] by simp
  from assms have "\<bar>2 * b + s\<bar> < 2 ^ 53" by simp
  from half_int_sum [OF this] have "rnd (of_int b + of_int s / 2) = Fin (of_int b + of_int s / 2)"
    by (simp add: add_divide_distrib)
  with h show ?thesis by simp
qed

lemma ticksLoop_int_terminates:
  assumes "1 \<le> s" "s \<le> 2 ^ 51" "\<bar>b\<bar> \<le> 2 ^ 51" "- (2 ^ 51) \<le> n"
  shows "\<exists>r. ticksLoop (Fin (of_int n)) (Fin (of_int b)) (Fin (of_int s)) acc = Some r"
  using assms(4)
proof (induction "nat (b + s - n)" arbitrary: n acc rule: less_induct)
  case less
  have bd: "dadd (Fin (of_int b)) (dmul (Fin (of_int s)) (Fin (1 / 2))) = Fin (of_int b + of_int s / 2)"
    using assms by (intro bound_int) simp_all
  show ?case
  proof (cases "real_of_int n \<le> of_int b + of_int s / 2")
    case False
    then have "\<not> dle (Fin (of_int n)) (dadd (Fin (of_int b)) (dmul (Fin (of_int s)) (Fin (1 / 2))))"
      unfolding bd by simp
    from ticksLoop_stop [OF this] show ?thesis by blast
  next
    case True
    then have t: "dle (Fin (of_int n)) (dadd (Fin (of_int b)) (dmul (Fin (of_int s)) (Fin (1 / 2))))"
      unfolding bd by simp
    from True have "2 * real_of_int n \<le> real_of_int (2 * b + s)" by simp
    then have "real_of_int (2 * n) \<le> real_of_int (2 * b + s)" by simp
    then have le: "2 * n \<le> 2 * b + s" by (simp only: of_int_le_iff)
    with assms less.prems have "\<bar>n + s\<bar> < 2 ^ 53" by simp
    from rnd_of_int [OF this] have st: "dadd (Fin (of_int n)) (Fin (of_int s)) = Fin (of_int (n + s))"
      by simp
    have "nat (b + s - (n + s)) < nat (b + s - n)" using le assms(1) by simp
    from less.hyps [OF this, of "acc @ [roundTick (Fin (of_int n))]"] less.prems assms(1)
    obtain r where "ticksLoop (Fin (of_int (n + s))) (Fin (of_int b)) (Fin (of_int s))
        (acc @ [roundTick (Fin (of_int n))]) = Some r" by auto
    then show ?thesis unfolding ticksLoop_go [OF t] st by blast
  qed
qed

lemma roundNearest_binade:
  assumes "2 powr of_int e \<le> \<bar>y\<bar>" "\<bar>y\<bar> < 2 powr of_int (e + 1)" "- 1022 \<le> e"
  shows "roundNearest y = of_int (roundHalfEven (y / 2 powr of_int (e - 52))) * 2 powr of_int (e - 52)"
proof -
  from assms(1) have "0 < \<bar>y\<bar>" by (smt (verit) powr_gt_zero)
  then have "y \<noteq> 0" by simp
  moreover have "ulpExponent y = e - 52"
    using floor_log2_unique [OF assms(1,2)] assms(3) by (simp add: ulpExponent_def)
  ultimately show ?thesis by (simp add: roundNearest_def)
qed

lemma absorbed: "rnd 10000000000000001 = Fin 10000000000000000"
proof -
  have "roundNearest 10000000000000001 = of_int (roundHalfEven (10000000000000001 / 2 powr of_int (53 - 52))) * 2 powr of_int (53 - 52)"
    by (rule roundNearest_binade) simp_all
  also have "\<dots> = 10000000000000000"
    by (simp add: roundHalfEven_def)
  finally show ?thesis by (simp add: rnd_def)
qed

lemma bound_absorbed: "rnd (20000000000000005 / 2) = Fin 10000000000000002"
proof -
  have "roundNearest (20000000000000005 / 2) = of_int (roundHalfEven ((20000000000000005 / 2) / 2 powr of_int (53 - 52))) * 2 powr of_int (53 - 52)"
    by (rule roundNearest_binade) simp_all
  also have "\<dots> = 10000000000000002"
    by (simp add: roundHalfEven_def)
  finally show ?thesis by (simp add: rnd_def)
qed

lemma half_fixed: "rnd (1 / 2) = Fin (1 / 2)"
  using half_int [of 1] by simp


lemma ticksLoop_nonpositive_step:
  assumes "valid v" "dle step (Fin 0)" "dle v (dadd mx (dmul step (Fin (1 / 2))))"
  shows "ticksLoop v mx step acc = None"
proof (rule ticksLoop_diverges [where I = "\<lambda>w. valid w \<and> dle w (dadd mx (dmul step (Fin (1 / 2))))"])
  show "valid v \<and> dle v (dadd mx (dmul step (Fin (1 / 2))))" using assms by simp
next
  fix w
  let ?b = "dadd mx (dmul step (Fin (1 / 2)))"
  assume w: "valid w \<and> dle w ?b"
  then have nn: "w \<noteq> NaN" using dle_not_NaN by blast
  have "dle (dadd w step) ?b"
  proof (cases "w = PInf")
    case True
    with w have b: "dle PInf ?b" by simp
    from assms(2) obtain s where "step = Fin s \<or> step = NInf" by (cases step) simp_all
    then show ?thesis
    proof
      assume "step = Fin s"
      with True b show ?thesis by simp
    next
      assume "step = NInf"
      with b show ?thesis by (cases mx) simp_all
    qed
  next
    case False
    with w nn assms(2) have "dle (dadd w step) w" by (intro dadd_decreases) simp_all
    with w show ?thesis using dle_trans by blast
  qed
  with w show "dle w ?b \<and> valid (dadd w step) \<and> dle (dadd w step) ?b"
    by (simp add: dadd_valid)
qed


lemma five_halves: "rnd (5 / 2) = Fin (5 / 2)"
  using half_int_sum [of 5] by simp

lemma three_halves: "rnd (3 / 2) = Fin (3 / 2)"
  using half_int_sum [of 3] by simp

lemma roundTick_0_1_2:
  "roundTick (Fin 0) = Fin 0" "roundTick (Fin 1) = Fin 1" "roundTick (Fin 2) = Fin 2"
  by (simp_all add: roundTick_def)

lemma generateTicks_example:
  "generateTicks (Fin 0) (Fin 2) (Fin 1) = Some [Fin 0, Fin 1, Fin 2]"
  by (simp add: generateTicks_def ticksLoop_go ticksLoop_stop half_fixed five_halves roundTick_0_1_2)

lemma small_tick_facts:
  "rnd (1 / 2 ^ 30 * 10000000000) = Fin (9765625 / 1048576)"
  "dadd (Fin (1 / 2 ^ 30)) (Fin 1) = Fin (1 + 1 / 2 ^ 30)"
  "valid (Fin (1 / 2 ^ 30))"
proof -
  show "rnd (1 / 2 ^ 30 * 10000000000) = Fin (9765625 / 1048576)"
  proof -
    have "rnd (9765625 / 1048576) = Fin (9765625 / 1048576)"
      by (rule rnd_representable [where m = 9765625 and k = "- 20"])
        (simp_all add: powr_minus_divide)
    then show ?thesis by simp
  qed
  have "rnd (1 + 1 / 2 ^ 30) = Fin (1 + 1 / 2 ^ 30)"
    by (rule rnd_representable [where m = 1073741825 and k = "- 30"])
      (simp_all add: powr_minus_divide)
  then show "dadd (Fin (1 / 2 ^ 30)) (Fin 1) = Fin (1 + 1 / 2 ^ 30)"
    by (simp add: add.commute)
  show "valid (Fin (1 / 2 ^ 30))"
    by (rule valid_representable [where m = 1 and k = "- 30"]) (simp_all add: powr_minus_divide)
qed

lemma generateTicks_small:
  "generateTicks (Fin (1 / 2 ^ 30)) (Fin 0) (Fin 1) = Some [roundTick (Fin (1 / 2 ^ 30))]"
proof -
  have b: "dadd (Fin 0) (dmul (Fin 1) (Fin (1 / 2))) = Fin (1 / 2)"
    by (simp add: half_fixed)
  have t1: "dle (Fin (1 / 2 ^ 30)) (dadd (Fin 0) (dmul (Fin 1) (Fin (1 / 2))))"
    unfolding b by simp
  have t2: "\<not> dle (Fin (1 + 1 / 2 ^ 30)) (dadd (Fin 0) (dmul (Fin 1) (Fin (1 / 2))))"
    unfolding b by simp
  show ?thesis
    unfolding generateTicks_def ticksLoop_go [OF t1] small_tick_facts(2) ticksLoop_stop [OF t2]
    by simp
qed


section \<open>Nice scale\<close>

lemma rnd_minus: "rnd (- y) = dneg (rnd y)"
  by (auto simp: rnd_def Let_def roundNearest_minus)

lemma rnd_between:
  assumes "rnd l = Fin l" "rnd u = Fin u" "l \<le> y" "y \<le> u"
  obtains q where "rnd y = Fin q" "l \<le> q" "q \<le> u"
proof -
  from rnd_mono [OF assms(3)] rnd_mono [OF assms(4)] assms(1,2)
  have "dle (Fin l) (rnd y)" "dle (rnd y) (Fin u)" by simp_all
  then show ?thesis using that by (cases "rnd y") simp_all
qed

lemma below_next:
  assumes "\<bar>k\<bar> \<le> 2 ^ 26"
  shows "rnd (of_int k + 1 - 1 / 2 ^ 26) = Fin (of_int k + 1 - 1 / 2 ^ 26)"
proof (rule rnd_representable [where m = "(k + 1) * 2 ^ 26 - 1" and k = "- 26"])
  show "real_of_int k + 1 - 1 / 2 ^ 26 = of_int ((k + 1) * 2 ^ 26 - 1) * 2 powr of_int (- 26)"
    by (simp add: powr_minus_divide field_simps)
  from assms show "\<bar>(k + 1) * 2 ^ 26 - 1\<bar> < 2 ^ 53" by (simp add: abs_le_iff abs_less_iff)
  show "(- 1074 :: int) \<le> - 26" by simp
  from assms have "\<bar>real_of_int k\<bar> \<le> real_of_int (2 ^ 26)"
    by (simp only: of_int_abs [symmetric] of_int_le_iff)
  then have "\<bar>real_of_int k + 1 - 1 / 2 ^ 26\<bar> \<le> 2 ^ 26 + 2" by (simp add: abs_le_iff)
  also have "\<dots> < (2::real) ^ 1024" by simp
  finally show "\<bar>real_of_int k + 1 - 1 / 2 ^ 26\<bar> < 2 ^ 1024" .
qed

lemma div_bounds:
  fixes a s :: int
  assumes "1 \<le> s" "s \<le> 2 ^ 26"
  shows "real_of_int (a div s) \<le> of_int a / of_int s"
    and "real_of_int a / of_int s \<le> of_int (a div s) + 1 - 1 / 2 ^ 26"
proof -
  have s: "0 < real_of_int s" using assms by simp
  have e: "real_of_int a = of_int (a div s) * of_int s + of_int (a mod s)"
    by (metis of_int_add of_int_mult div_mult_mod_eq)
  have m: "0 \<le> a mod s" "a mod s \<le> s - 1" using assms by (simp_all add: pos_mod_bound zle_diff1_eq)
  then have mr: "0 \<le> real_of_int (a mod s)" "real_of_int (a mod s) \<le> of_int s - 1"
    by (simp, metis of_int_le_iff of_int_diff of_int_1)
  have q: "real_of_int a / of_int s = of_int (a div s) + of_int (a mod s) / of_int s"
    using s by (simp add: e add_divide_distrib)
  from mr(1) s show "real_of_int (a div s) \<le> of_int a / of_int s"
    unfolding q by simp
  have "real_of_int s \<le> 2 ^ 26" using assms(2) by (metis of_int_le_iff of_int_numeral of_int_power)
  then have "1 / (2::real) ^ 26 \<le> 1 / of_int s" using s by (intro divide_left_mono) simp_all
  moreover from mr(2) s have "real_of_int (a mod s) / of_int s \<le> (of_int s - 1) / of_int s"
    by (intro divide_right_mono) simp_all
  moreover have "(real_of_int s - 1) / of_int s = 1 - 1 / of_int s" using s by (simp add: field_simps)
  ultimately show "real_of_int a / of_int s \<le> of_int (a div s) + 1 - 1 / 2 ^ 26"
    unfolding q by linarith
qed

lemma div_mult_le_self:
  fixes a s :: int
  assumes "1 \<le> s"
  shows "a div s * s \<le> a"
proof -
  have "a div s * s + a mod s = a" by (rule div_mult_mod_eq)
  moreover have "0 \<le> a mod s" using assms by simp
  ultimately show ?thesis by linarith
qed

lemma div_abs_le:
  fixes a s :: int
  assumes "1 \<le> s" "\<bar>a\<bar> \<le> n"
  shows "\<bar>a div s\<bar> \<le> n"
proof -
  let ?k = "a div s"
  have e: "?k * s + a mod s = a" by (rule div_mult_mod_eq)
  have m: "0 \<le> a mod s" "a mod s < s" using assms(1) by simp_all
  have "\<bar>?k\<bar> \<le> \<bar>a\<bar>"
  proof (cases "0 \<le> ?k")
    case True
    with assms(1) have "?k * 1 \<le> ?k * s" by (intro mult_left_mono) simp_all
    with e m True show ?thesis by linarith
  next
    case False
    then have "?k + 1 \<le> 0" by simp
    with assms(1) have "(?k + 1) * s \<le> (?k + 1) * 1" by (intro mult_left_mono_neg) simp_all
    then have "?k * s + s \<le> ?k + 1" by (simp add: algebra_simps)
    then have "a \<le> ?k" using e m by linarith
    with False show ?thesis by simp
  qed
  with assms(2) show ?thesis by simp
qed

lemma floor_quotient:
  fixes a s :: int
  assumes "1 \<le> s" "s \<le> 2 ^ 26" "\<bar>a\<bar> \<le> 2 ^ 26"
  shows "dfloor (ddiv (Fin (of_int a)) (Fin (of_int s))) = Fin (of_int (a div s))"
proof -
  let ?k = "a div s"
  have k: "\<bar>?k\<bar> \<le> 2 ^ 26" using assms(1,3) by (rule div_abs_le)
  then have "\<bar>?k\<bar> < 2 ^ 53" by simp
  then have l: "rnd (of_int ?k) = Fin (of_int ?k)" by (rule rnd_of_int)
  from rnd_between [OF l below_next [OF k] div_bounds [OF assms(1,2), of a]]
  obtain q where q: "rnd (of_int a / of_int s) = Fin q" "of_int ?k \<le> q" "q \<le> of_int ?k + 1 - 1 / 2 ^ 26"
    by blast
  from q(3) have "q < of_int ?k + 1" by simp
  with q(2) have "\<lfloor>q\<rfloor> = ?k" by (simp add: floor_unique)
  with q(1) assms(1) show ?thesis by simp
qed

lemma ceil_quotient:
  fixes b s :: int
  assumes "1 \<le> s" "s \<le> 2 ^ 26" "\<bar>b\<bar> \<le> 2 ^ 26"
  shows "dceil (ddiv (Fin (of_int b)) (Fin (of_int s))) = Fin (of_int (- ((- b) div s)))"
proof -
  from assms(3) have "\<bar>- b\<bar> \<le> 2 ^ 26" by simp
  from floor_quotient [OF assms(1,2) this]
  have f: "dfloor (ddiv (Fin (of_int (- b))) (Fin (of_int s))) = Fin (of_int ((- b) div s))" .
  have "ddiv (Fin (of_int (- b))) (Fin (of_int s)) = dneg (ddiv (Fin (of_int b)) (Fin (of_int s)))"
    using assms(1) rnd_minus [of "of_int b / of_int s"] by simp
  with f have "dfloor (dneg (ddiv (Fin (of_int b)) (Fin (of_int s)))) = Fin (of_int ((- b) div s))"
    by simp
  then show ?thesis
    by (cases "ddiv (Fin (of_int b)) (Fin (of_int s))") (simp_all add: ceiling_def)
qed

lemma product_exact:
  fixes k s :: int
  assumes "\<bar>k\<bar> \<le> 2 ^ 26" "1 \<le> s" "s \<le> 2 ^ 26"
  shows "dmul (Fin (of_int k)) (Fin (of_int s)) = Fin (of_int (k * s))"
proof -
  have "\<bar>k * s\<bar> = \<bar>k\<bar> * s" using assms(2) by (simp add: abs_mult)
  also have "\<dots> \<le> 2 ^ 26 * 2 ^ 26" using assms by (intro mult_mono) simp_all
  finally have "\<bar>k * s\<bar> < 2 ^ 53" by simp
  from rnd_of_int [OF this] show ?thesis by simp
qed



lemma log10_100: "log 10 100 = (2::real)"
proof -
  have "(100::real) = 10 powr 2" by simp
  then show ?thesis by (simp only: log_powr_cancel)
qed

lemma log10_25: "1 \<le> log 10 (25::real)" "log 10 (25::real) \<le> 3 / 2"
proof -
  have "log 10 10 \<le> log 10 (25::real)" by (subst log_le_cancel_iff) simp_all
  then show "1 \<le> log 10 (25::real)" by simp
  have "(3::real) \<le> sqrt 10" by (rule real_le_rsqrt) simp
  have "(10::real) powr (3 / 2) = 10 powr 1 * 10 powr (1 / 2)"
    by (simp only: powr_add [symmetric]) simp
  also have "\<dots> = 10 * sqrt 10" by (simp add: powr_half_sqrt)
  finally have "(25::real) \<le> 10 powr (3 / 2)" using \<open>3 \<le> sqrt 10\<close> by simp
  then show "log 10 (25::real) \<le> 3 / 2" by (subst log_le_iff) simp_all
qed

lemma floor_log10_25: "dfloor (rnd (log 10 25)) = Fin 1"
proof -
  from rnd_between [OF rnd_1 three_halves log10_25]
  obtain q where q: "rnd (log 10 25) = Fin q" "1 \<le> q" "q \<le> 3 / 2" by blast
  then have "\<lfloor>q\<rfloor> = 1" by (intro floor_unique) simp_all
  with q(1) show ?thesis by simp
qed

lemma niceNumber_100: "niceNumber exactMath (Fin 100) False = Fin 100"
  by (simp add: niceNumber_def exactMath_def log10_100)

lemma niceNumber_25: "niceNumber exactMath (Fin 25) True = Fin 20"
  by (simp add: niceNumber_def exactMath_def floor_log10_25 five_halves)

lemma niceScale_0_100:
  "niceScale exactMath (Fin 0) (Fin 100) (Fin 5) = \<lparr>scaleMin = Fin 0, scaleMax = Fin 100, scaleStep = Fin 20\<rparr>"
proof -
  have a: "dsub (Fin 100) (Fin 0) = Fin 100" "dsub (Fin 5) (Fin 1) = Fin 4" by (simp_all add: dsub_def)
  show ?thesis
    unfolding niceScale_def a by (simp add: niceNumber_100 niceNumber_25)
qed


end
